theory Spec2Isabelle
  imports Main
begin

section \<open>Characters and strings\<close>

text \<open>
  A Python \<open>str\<close> is modelled as an Isabelle \<open>string\<close>: a list of characters with code
  points below 256. The character predicates below are the Python ones restricted to
  that range.
\<close>

definition ord :: "char \<Rightarrow> nat" where
  "ord c = of_char c"

definition isspace :: "char \<Rightarrow> bool" where
  \<comment> \<open>\<open>str.isspace\<close>, also the class \<open>\s\<close> of a str pattern and what \<open>strip()\<close> removes\<close>
  "isspace c = (let k = ord c in
     (9 \<le> k \<and> k \<le> 13) \<or> (28 \<le> k \<and> k \<le> 32) \<or> k = 133 \<or> k = 160)"

definition isdecimal :: "char \<Rightarrow> bool" where
  \<comment> \<open>the class \<open>\d\<close> of a str pattern: decimal digits\<close>
  "isdecimal c = (let k = ord c in 48 \<le> k \<and> k \<le> 57)"

definition isdigit :: "char \<Rightarrow> bool" where
  \<comment> \<open>\<open>str.isdigit\<close>: the decimal digits and the superscript digits 1, 2, 3\<close>
  "isdigit c = (let k = ord c in (48 \<le> k \<and> k \<le> 57) \<or> k = 178 \<or> k = 179 \<or> k = 185)"

definition in_range :: "char \<Rightarrow> char \<Rightarrow> char \<Rightarrow> bool" where
  "in_range lo hi c = (ord lo \<le> ord c \<and> ord c \<le> ord hi)"

definition lower_char :: "char \<Rightarrow> char" where
  "lower_char c = (let k = ord c in
     if (65 \<le> k \<and> k \<le> 90) \<or> (192 \<le> k \<and> k \<le> 214) \<or> (216 \<le> k \<and> k \<le> 222)
     then char_of (k + 32) else c)"

definition lower :: "string \<Rightarrow> string" where
  "lower s = map lower_char s"

definition lstrip :: "string \<Rightarrow> string" where
  "lstrip s = dropWhile isspace s"

definition rstrip :: "string \<Rightarrow> string" where
  "rstrip s = rev (dropWhile isspace (rev s))"

definition strip :: "string \<Rightarrow> string" where
  "strip s = rstrip (lstrip s)"

definition rstrip_chars :: "string \<Rightarrow> string \<Rightarrow> string" where
  \<comment> \<open>\<open>s.rstrip(chars)\<close>\<close>
  "rstrip_chars chars s = rev (dropWhile (\<lambda>c. c \<in> set chars) (rev s))"

definition startswith :: "string \<Rightarrow> string \<Rightarrow> bool" where
  "startswith s sub = (take (length sub) s = sub)"

primrec contains :: "string \<Rightarrow> string \<Rightarrow> bool" where
  \<comment> \<open>\<open>sub in s\<close>\<close>
  "contains [] sub = (sub = [])"
| "contains (c # cs) sub = (startswith (c # cs) sub \<or> contains cs sub)"

primrec find_from :: "string \<Rightarrow> string \<Rightarrow> nat \<Rightarrow> nat option" where
  \<comment> \<open>\<open>find_from s sub i\<close> searches the suffix \<open>s\<close> that starts at index \<open>i\<close>\<close>
  "find_from [] sub i = (if sub = [] then Some i else None)"
| "find_from (c # cs) sub i =
     (if startswith (c # cs) sub then Some i else find_from cs sub (Suc i))"

definition find :: "string \<Rightarrow> string \<Rightarrow> nat \<Rightarrow> nat option" where
  \<comment> \<open>\<open>s.find(sub, start)\<close>; \<open>None\<close> is Python's \<open>-1\<close>\<close>
  "find s sub start = (if length s < start then None else find_from (drop start s) sub start)"

fun replace :: "string \<Rightarrow> string \<Rightarrow> string" where
  \<comment> \<open>\<open>s.replace(old, "")\<close> for a non-empty \<open>old\<close>\<close>
  "replace [] old = []"
| "replace (c # cs) old =
     (if old \<noteq> [] \<and> startswith (c # cs) old
      then replace (drop (length old) (c # cs)) old
      else c # replace cs old)"

definition split1 :: "string \<Rightarrow> char \<Rightarrow> string list" where
  \<comment> \<open>\<open>s.split(sep, 1)\<close> for a separator of one character\<close>
  "split1 s sep =
     (if sep \<in> set s
      then [takeWhile (\<lambda>c. c \<noteq> sep) s, tl (dropWhile (\<lambda>c. c \<noteq> sep) s)]
      else [s])"

definition split_words_nonempty :: "string \<Rightarrow> bool" where
  \<comment> \<open>\<open>len(s.split()) >= 1\<close>: some character is not white space\<close>
  "split_words_nonempty s = list_ex (\<lambda>c. \<not> isspace c) s"

definition raw :: "string \<Rightarrow> string" where
  \<comment> \<open>Pattern texts are written with \<open>%\<close> for the backslash and \<open>~\<close> for the apostrophe,
      two characters that no pattern of the program uses.\<close>
  "raw s = map (\<lambda>c. if c = CHR ''%'' then CHR 0x5C else if c = CHR ''~'' then CHR 0x27 else c) s"


section \<open>Regular expressions\<close>

text \<open>
  The fragment of Python's \<open>re\<close> syntax that the program's patterns use (and the
  lookahead, which no pattern of the program uses), and a
  backtracking matcher for it. A matcher maps a state (the rest of the subject and the
  groups captured so far) to the list of states in which a match of the expression can
  end, in the order in which a backtracking engine tries them; the head of the list is
  the match that \<open>re\<close> reports.
\<close>

datatype citem = CChar char | CRange char char | CSpace | CDigit

datatype regex =
    Lit char
  | Dot
  | Digit
  | Space
  | Cls "citem list"
  | Bol
  | Eol
  | EndZ
  | Eps
  | Seq regex regex
  | Alt regex regex
  | Star regex
  | LazyStar regex
  | Plus regex
  | Opt regex
  | Rep nat regex
  | Grp nat regex
  | NonCap regex
  | Look regex

record flags =
  ignorecase :: bool
  dotall :: bool

definition no_flags :: flags where
  "no_flags = \<lparr>ignorecase = False, dotall = False\<rparr>"

type_synonym groups = "(nat \<times> nat \<times> string) list"
type_synonym mstate = "string \<times> groups"
type_synonym matcher = "mstate \<Rightarrow> mstate list"

definition char_eq :: "flags \<Rightarrow> char \<Rightarrow> char \<Rightarrow> bool" where
  "char_eq fl p c = (if ignorecase fl then lower_char p = lower_char c else p = c)"

fun citem_matches :: "flags \<Rightarrow> citem \<Rightarrow> char \<Rightarrow> bool" where
  "citem_matches fl (CChar p) c = char_eq fl p c"
| "citem_matches fl (CRange lo hi) c =
     (in_range lo hi c \<or> (ignorecase fl \<and>
        (\<exists>d \<in> set (map char_of [0 ..< 256::nat]). lower_char d = lower_char c \<and> in_range lo hi d)))"
| "citem_matches fl CSpace c = isspace c"
| "citem_matches fl CDigit c = isdecimal c"

definition m_char :: "(char \<Rightarrow> bool) \<Rightarrow> matcher" where
  "m_char P st = (case fst st of [] \<Rightarrow> [] | c # cs \<Rightarrow> if P c then [(cs, snd st)] else [])"

definition m_test :: "(string \<Rightarrow> bool) \<Rightarrow> matcher" where
  "m_test P st = (if P (fst st) then [st] else [])"

definition m_seq :: "matcher \<Rightarrow> matcher \<Rightarrow> matcher" where
  "m_seq a b st = concat (map b (a st))"

definition m_alt :: "matcher \<Rightarrow> matcher \<Rightarrow> matcher" where
  "m_alt a b st = a st @ b st"

definition advances :: "mstate \<Rightarrow> mstate \<Rightarrow> bool" where
  "advances st st' = (length (fst st') < length (fst st))"

primrec m_iter :: "nat \<Rightarrow> matcher \<Rightarrow> matcher" where
  \<comment> \<open>greedy repetition: one more round first, then stop; a round that consumes nothing
      ends the repetition, so at most as many rounds as characters are left\<close>
  "m_iter 0 a st = [st]"
| "m_iter (Suc k) a st = concat (map (m_iter k a) (filter (advances st) (a st))) @ [st]"

primrec m_iter_lazy :: "nat \<Rightarrow> matcher \<Rightarrow> matcher" where
  \<comment> \<open>lazy repetition: stop first, then one more round\<close>
  "m_iter_lazy 0 a st = [st]"
| "m_iter_lazy (Suc k) a st = st # concat (map (m_iter_lazy k a) (filter (advances st) (a st)))"

definition m_star :: "matcher \<Rightarrow> matcher" where
  "m_star a st = m_iter (length (fst st)) a st"

definition m_lazy_star :: "matcher \<Rightarrow> matcher" where
  "m_lazy_star a st = m_iter_lazy (length (fst st)) a st"

primrec m_rep :: "nat \<Rightarrow> matcher \<Rightarrow> matcher" where
  "m_rep 0 a st = [st]"
| "m_rep (Suc k) a st = m_seq a (m_rep k a) st"

definition m_group :: "nat \<Rightarrow> nat \<Rightarrow> matcher \<Rightarrow> matcher" where
  \<comment> \<open>a capture is the position where the group starts and the text it matched; the
      newest capture of a group is the first binding of its number\<close>
  "m_group len i a st =
     map (\<lambda>st'. (fst st',
            (i, len - length (fst st), take (length (fst st) - length (fst st')) (fst st)) # snd st'))
       (a st)"

definition m_look :: "matcher \<Rightarrow> matcher" where
  \<comment> \<open>the lookahead \<open>(?=...)\<close>: the first way to match, its groups kept, nothing consumed\<close>
  "m_look a st = (case a st of [] \<Rightarrow> [] | st' # _ \<Rightarrow> [(fst st, snd st')])"

primrec rmatch :: "regex \<Rightarrow> flags \<Rightarrow> nat \<Rightarrow> matcher" where
  \<comment> \<open>\<open>len\<close> is the length of the whole subject: the position of a state is
      \<open>len - length (fst st)\<close>\<close>
  "rmatch (Lit p) fl len = m_char (char_eq fl p)"
| "rmatch Dot fl len = m_char (\<lambda>c. dotall fl \<or> c \<noteq> CHR ''\<newline>'')"
| "rmatch Digit fl len = m_char isdecimal"
| "rmatch Space fl len = m_char isspace"
| "rmatch (Cls items) fl len = m_char (\<lambda>c. list_ex (\<lambda>i. citem_matches fl i c) items)"
| "rmatch Bol fl len = m_test (\<lambda>s. length s = len)"
| "rmatch Eol fl len = m_test (\<lambda>s. s = [] \<or> s = ''\<newline>'')"
| "rmatch EndZ fl len = m_test (\<lambda>s. s = [])"
| "rmatch Eps fl len = m_test (\<lambda>s. True)"
| "rmatch (Seq r1 r2) fl len = m_seq (rmatch r1 fl len) (rmatch r2 fl len)"
| "rmatch (Alt r1 r2) fl len = m_alt (rmatch r1 fl len) (rmatch r2 fl len)"
| "rmatch (Star r) fl len = m_star (rmatch r fl len)"
| "rmatch (LazyStar r) fl len = m_lazy_star (rmatch r fl len)"
| "rmatch (Plus r) fl len = m_seq (rmatch r fl len) (m_star (rmatch r fl len))"
| "rmatch (Opt r) fl len = m_alt (rmatch r fl len) (m_test (\<lambda>s. True))"
| "rmatch (Rep n r) fl len = m_rep n (rmatch r fl len)"
| "rmatch (Grp i r) fl len = m_group len i (rmatch r fl len)"
| "rmatch (NonCap r) fl len = rmatch r fl len"
| "rmatch (Look r) fl len = m_look (rmatch r fl len)"

text \<open>The match object: \<open>start()\<close>, \<open>end()\<close>, \<open>group(0)\<close> and the numbered groups.\<close>

record rematch =
  m_start :: nat
  m_end :: nat
  m_group0 :: string
  m_groups :: groups

definition group :: "rematch \<Rightarrow> nat \<Rightarrow> string option" where
  \<comment> \<open>\<open>m.group(i)\<close> for \<open>i > 0\<close>; \<open>None\<close> stands for a group that did not take part
      (Python returns \<open>None\<close>) and for a group the pattern does not have (IndexError)\<close>
  "group m i = map_option snd (map_of (m_groups m) i)"

definition group_span :: "rematch \<Rightarrow> nat \<Rightarrow> (nat \<times> nat) option" where
  \<comment> \<open>\<open>m.span(i)\<close>\<close>
  "group_span m i = map_option (\<lambda>(b, g). (b, b + length g)) (map_of (m_groups m) i)"

definition mk_match :: "nat \<Rightarrow> string \<Rightarrow> mstate \<Rightarrow> rematch" where
  "mk_match len s st' =
     \<lparr>m_start = len - length s, m_end = len - length (fst st'),
      m_group0 = take (length s - length (fst st')) s, m_groups = snd st'\<rparr>"

definition first_match :: "regex \<Rightarrow> flags \<Rightarrow> nat \<Rightarrow> string \<Rightarrow> bool \<Rightarrow> mstate option" where
  \<comment> \<open>the first way to match at the start of \<open>s\<close>; with \<open>must_advance\<close> an empty
      match is not accepted\<close>
  "first_match r fl len s must_advance =
     (case filter (\<lambda>st'. \<not> must_advance \<or> advances (s, []) st') (rmatch r fl len (s, [])) of
        [] \<Rightarrow> None
      | st' # _ \<Rightarrow> Some st')"

fun search_from :: "regex \<Rightarrow> flags \<Rightarrow> nat \<Rightarrow> string \<Rightarrow> rematch option" where
  "search_from r fl len s =
     (case first_match r fl len s False of
        Some st' \<Rightarrow> Some (mk_match len s st')
      | None \<Rightarrow> (case s of [] \<Rightarrow> None | c # cs \<Rightarrow> search_from r fl len cs))"

definition re_search :: "regex \<Rightarrow> flags \<Rightarrow> string \<Rightarrow> rematch option" where
  "re_search r fl text = search_from r fl (length text) text"

definition re_match :: "regex \<Rightarrow> flags \<Rightarrow> string \<Rightarrow> rematch option" where
  "re_match r fl text = map_option (mk_match (length text) text) (first_match r fl (length text) text False)"


function finditer_from :: "regex \<Rightarrow> flags \<Rightarrow> nat \<Rightarrow> string \<Rightarrow> bool \<Rightarrow> rematch list" where
  \<comment> \<open>scanning from left to right: after a match the scan goes on where the match ended;
      after an empty match the next match at the same place must not be empty\<close>
  "finditer_from r fl len s must_advance =
     (case first_match r fl len s must_advance of
        None \<Rightarrow> (case s of [] \<Rightarrow> [] | c # cs \<Rightarrow> finditer_from r fl len cs False)
      | Some st' \<Rightarrow>
          mk_match len s st' #
            (if advances (s, []) st' then finditer_from r fl len (fst st') False
             else finditer_from r fl len s True))"
  by pat_completeness auto

lemma first_match_must_advance:
  "first_match r fl len s True = Some st' \<Longrightarrow> advances (s, []) st'"
proof -
  assume a: "first_match r fl len s True = Some st'"
  let ?xs = "filter (\<lambda>st'. \<not> True \<or> advances (s, []) st') (rmatch r fl len (s, []))"
  from a have "?xs \<noteq> [] \<and> st' = hd ?xs"
    by (auto simp: first_match_def split: list.splits)
  then have "st' \<in> set ?xs" by (metis list.set_sel(1))
  then show ?thesis by simp
qed

termination finditer_from
proof (relation "measure (\<lambda>(r, fl, len, s, adv). 2 * length s + (if adv then 0 else 1))")
  show "wf (measure (\<lambda>(r, fl, len, s, adv). 2 * length s + (if adv then 0 else 1)))"
    by simp
next
  fix r fl len s and must_advance :: bool and c cs
  assume "s = c # cs"
  then show "((r, fl, len, cs, False), (r, fl, len, s, must_advance))
      \<in> measure (\<lambda>(r, fl, len, s, adv). 2 * length s + (if adv then 0 else 1))"
    by simp
next
  fix r fl len s and must_advance :: bool and st'
  assume "advances (s, []) st'"
  then show "((r, fl, len, fst st', False), (r, fl, len, s, must_advance))
      \<in> measure (\<lambda>(r, fl, len, s, adv). 2 * length s + (if adv then 0 else 1))"
    by (simp add: advances_def)
next
  fix r fl len s and must_advance :: bool and st'
  assume "first_match r fl len s must_advance = Some st'" and "\<not> advances (s, []) st'"
  then have "\<not> must_advance" using first_match_must_advance by (cases must_advance) auto
  then show "((r, fl, len, s, True), (r, fl, len, s, must_advance))
      \<in> measure (\<lambda>(r, fl, len, s, adv). 2 * length s + (if adv then 0 else 1))"
    by simp
qed

definition finditer :: "regex \<Rightarrow> flags \<Rightarrow> string \<Rightarrow> rematch list" where
  "finditer r fl text = finditer_from r fl (length text) text False"

definition findall0 :: "regex \<Rightarrow> flags \<Rightarrow> string \<Rightarrow> string list" where
  \<comment> \<open>\<open>re.findall\<close> for a pattern without groups: the matched texts\<close>
  "findall0 r fl text = map m_group0 (finditer r fl text)"

fun sub_build :: "string \<Rightarrow> string \<Rightarrow> nat \<Rightarrow> rematch list \<Rightarrow> string" where
  "sub_build text repl pos [] = drop pos text"
| "sub_build text repl pos (m # ms) =
     take (m_start m - pos) (drop pos text) @ repl @ sub_build text repl (m_end m) ms"

definition re_sub :: "regex \<Rightarrow> flags \<Rightarrow> string \<Rightarrow> string \<Rightarrow> string" where
  \<comment> \<open>\<open>re.sub(pattern, repl, text)\<close> for a replacement without group references\<close>
  "re_sub r fl repl text = sub_build text repl 0 (finditer r fl text)"

text \<open>Printing an expression back to the pattern text it was read from.\<close>

definition escaped :: "char \<Rightarrow> string" where
  "escaped c =
     (if c = CHR ''\<newline>'' then [CHR 0x5C, CHR ''n'']
      else if c \<in> set (raw ''[]().-~'') then [CHR 0x5C, c]
      else [c])"

fun render_citem :: "citem \<Rightarrow> string" where
  "render_citem (CChar c) = escaped c"
| "render_citem (CRange lo hi) = [lo, CHR ''-'', hi]"
| "render_citem CSpace = raw ''%s''"
| "render_citem CDigit = raw ''%d''"

fun render :: "regex \<Rightarrow> string" where
  "render (Lit c) = escaped c"
| "render Dot = ''.''"
| "render Digit = raw ''%d''"
| "render Space = raw ''%s''"
| "render (Cls items) = ''['' @ concat (map render_citem items) @ '']''"
| "render Bol = ''^''"
| "render Eol = ''$''"
| "render EndZ = raw ''%Z''"
| "render Eps = []"
| "render (Seq r1 r2) = render r1 @ render r2"
| "render (Alt r1 r2) = render r1 @ ''|'' @ render r2"
| "render (Star r) = render r @ ''*''"
| "render (LazyStar r) = render r @ ''*?''"
| "render (Plus r) = render r @ ''+''"
| "render (Opt r) = render r @ ''?''"
| "render (Rep n r) = render r @ ''{'' @ [char_of (48 + n)] @ ''}''"
| "render (Grp i r) = ''('' @ render r @ '')''"
| "render (NonCap r) = ''(?:'' @ render r @ '')''"
| "render (Look r) = ''(?='' @ render r @ '')''"

fun seqs :: "regex list \<Rightarrow> regex" where
  "seqs [] = Eps"
| "seqs [r] = r"
| "seqs (r # rs) = Seq r (seqs rs)"

definition lits :: "string \<Rightarrow> regex" where
  "lits s = seqs (map Lit s)"


section \<open>The citation pattern library\<close>

definition word_rx :: regex where
  \<comment> \<open>\<open>[A-Z][a-z]+\<close>\<close>
  "word_rx = Seq (Cls [CRange CHR ''A'' CHR ''Z'']) (Plus (Cls [CRange CHR ''a'' CHR ''z'']))"

definition name_rx :: regex where
  \<comment> \<open>\<open>[A-Z][a-z]+(?:\s+[A-Z][a-z]+)*\<close>\<close>
  "name_rx = Seq word_rx (Star (NonCap (Seq (Plus Space) word_rx)))"

definition numlist_rx :: regex where
  \<comment> \<open>\<open>\d+(?:,\s*\d+)*\<close>\<close>
  "numlist_rx = Seq (Plus Digit) (Star (NonCap (seqs [Lit CHR '','', Star Space, Plus Digit])))"

definition etal_rx :: regex where
  \<comment> \<open>\<open>\s+et\s+al\.\<close>\<close>
  "etal_rx = seqs [Plus Space, lits ''et'', Plus Space, lits ''al.'']"

definition year_rx :: regex where
  \<comment> \<open>\<open>\d{4}\<close>\<close>
  "year_rx = Rep 4 Digit"

definition year_letter_rx :: regex where
  \<comment> \<open>\<open>\d{4}(?:[a-z])?\<close>\<close>
  "year_letter_rx = Seq (Rep 4 Digit) (Opt (NonCap (Cls [CRange CHR ''a'' CHR ''z''])))"

definition comma_rx :: regex where
  \<comment> \<open>\<open>\s*,\s*\<close>\<close>
  "comma_rx = seqs [Star Space, Lit CHR '','', Star Space]"

definition more_names_rx :: regex where
  \<comment> \<open>\<open>(?:\s*,\s*[A-Z][a-z]+(?:\s+[A-Z][a-z]+)*)*\<close>\<close>
  "more_names_rx = Star (NonCap (Seq comma_rx name_rx))"

definition page_rx :: "string \<Rightarrow> regex" where
  \<comment> \<open>\<open>,\s*p\.\s*\d+\<close> and \<open>,\s*vol\.\s*\d+\<close>\<close>
  "page_rx mark = seqs [Lit CHR '','', Star Space, lits mark, Lit CHR ''.'', Star Space, Plus Digit]"

definition patterns :: "(string \<times> regex) list" where
  \<comment> \<open>\<open>self.patterns\<close>, each pattern text with the expression it denotes\<close>
  "patterns = [
     (raw ''%[(%d+)%](?:%s*[A-Za-z%s%-%.%~]+)?'',
      seqs [Lit CHR ''['', Grp 1 (Plus Digit), Lit CHR '']'',
            Opt (NonCap (Seq (Star Space)
              (Plus (Cls [CRange CHR ''A'' CHR ''Z'', CRange CHR ''a'' CHR ''z'', CSpace,
                          CChar CHR ''-'', CChar CHR ''.'', CChar (CHR 0x27)]))))]),
     (raw ''%[(%d+(?:,%s*%d+)*)%]'',
      seqs [Lit CHR ''['', Grp 1 numlist_rx, Lit CHR '']'']),
     (raw ''%[(?:%d+)(?:%-%d+)*%]'',
      seqs [Lit CHR ''['', NonCap (Plus Digit), Star (NonCap (Seq (Lit CHR ''-'') (Plus Digit))),
            Lit CHR '']'']),
     (raw ''%((%d+)%)'',
      seqs [Lit CHR ''('', Grp 1 (Plus Digit), Lit CHR '')'']),
     (raw ''%((%d+(?:,%s*%d+)*)%)'',
      seqs [Lit CHR ''('', Grp 1 numlist_rx, Lit CHR '')'']),
     (raw ''([A-Z][a-z]+(?:%s+[A-Z][a-z]+)*)%s+et%s+al%.%s*%((%d{4})%)'',
      seqs [Grp 1 name_rx, etal_rx, Star Space, Lit CHR ''('', Grp 2 year_rx, Lit CHR '')'']),
     (raw ''%(([A-Z][a-z]+(?:%s+[A-Z][a-z]+)*)%s+et%s+al%.%s*,%s*(%d{4})%)'',
      seqs [Lit CHR ''('', Grp 1 name_rx, etal_rx, comma_rx, Grp 2 year_rx, Lit CHR '')'']),
     (raw ''([A-Z][a-z]+(?:%s+[A-Z][a-z]+)*)%s*%((%d{4})%)'',
      seqs [Grp 1 name_rx, Star Space, Lit CHR ''('', Grp 2 year_rx, Lit CHR '')'']),
     (raw ''%(([A-Z][a-z]+(?:%s+[A-Z][a-z]+)*)%s*,%s*(%d{4})%)'',
      seqs [Lit CHR ''('', Grp 1 name_rx, comma_rx, Grp 2 year_rx, Lit CHR '')'']),
     (raw ''([A-Z][a-z]+(?:%s+[A-Z][a-z]+)*)%s+and%s+([A-Z][a-z]+(?:%s+[A-Z][a-z]+)*)%s*%((%d{4})%)'',
      seqs [Grp 1 name_rx, Plus Space, lits ''and'', Plus Space, Grp 2 name_rx, Star Space,
            Lit CHR ''('', Grp 3 year_rx, Lit CHR '')'']),
     (raw ''%(([A-Z][a-z]+(?:%s+[A-Z][a-z]+)*)%s+and%s+([A-Z][a-z]+(?:%s+[A-Z][a-z]+)*),%s*(%d{4})%)'',
      seqs [Lit CHR ''('', Grp 1 name_rx, Plus Space, lits ''and'', Plus Space, Grp 2 name_rx,
            Lit CHR '','', Star Space, Grp 3 year_rx, Lit CHR '')'']),
     (raw ''%[([A-Za-z]+%d{2}(?:[a-z])?)%]'',
      seqs [Lit CHR ''['',
            Grp 1 (seqs [Plus (Cls [CRange CHR ''A'' CHR ''Z'', CRange CHR ''a'' CHR ''z'']),
                         Rep 2 Digit, Opt (NonCap (Cls [CRange CHR ''a'' CHR ''z'']))]),
            Lit CHR '']'']),
     (raw ''([A-Z][a-z]+(?:%s+[A-Z][a-z]+)*)%s+et%s+al%.%s*%((%d{4}(?:[a-z])?)%)'',
      seqs [Grp 1 name_rx, etal_rx, Star Space, Lit CHR ''('', Grp 2 year_letter_rx,
            Lit CHR '')'']),
     (raw ''%(([A-Z][a-z]+(?:%s+[A-Z][a-z]+)*)%s+et%s+al%.%s*,%s*(%d{4}(?:[a-z])?)%)'',
      seqs [Lit CHR ''('', Grp 1 name_rx, etal_rx, comma_rx, Grp 2 year_letter_rx,
            Lit CHR '')'']),
     (raw ''([A-Z][a-z]+(?:%s+[A-Z][a-z]+)*)(?:%s*,%s*[A-Z][a-z]+(?:%s+[A-Z][a-z]+)*)*%s+et%s+al%.%s*%((%d{4})%)'',
      seqs [Grp 1 name_rx, more_names_rx, etal_rx, Star Space, Lit CHR ''('', Grp 2 year_rx,
            Lit CHR '')'']),
     (raw ''%(([A-Z][a-z]+(?:%s+[A-Z][a-z]+)*)(?:%s*,%s*[A-Z][a-z]+(?:%s+[A-Z][a-z]+)*)*%s+et%s+al%.%s*,%s*(%d{4})%)'',
      seqs [Lit CHR ''('', Grp 1 name_rx, more_names_rx, etal_rx, comma_rx, Grp 2 year_rx,
            Lit CHR '')'']),
     (raw ''([A-Z][a-z]+(?:%s+[A-Z][a-z]+)*)%s*%((%d{4}),%s*p%.%s*%d+%)'',
      seqs [Grp 1 name_rx, Star Space, Lit CHR ''('', Grp 2 year_rx, page_rx ''p'',
            Lit CHR '')'']),
     (raw ''%(([A-Z][a-z]+(?:%s+[A-Z][a-z]+)*)%s*,%s*(%d{4}),%s*p%.%s*%d+%)'',
      seqs [Lit CHR ''('', Grp 1 name_rx, comma_rx, Grp 2 year_rx, page_rx ''p'',
            Lit CHR '')'']),
     (raw ''([A-Z][a-z]+(?:%s+[A-Z][a-z]+)*)%s*%((%d{4}),%s*vol%.%s*%d+%)'',
      seqs [Grp 1 name_rx, Star Space, Lit CHR ''('', Grp 2 year_rx, page_rx ''vol'',
            Lit CHR '')'']),
     (raw ''%(([A-Z][a-z]+(?:%s+[A-Z][a-z]+)*)%s*,%s*(%d{4}),%s*vol%.%s*%d+%)'',
      seqs [Lit CHR ''('', Grp 1 name_rx, comma_rx, Grp 2 year_rx, page_rx ''vol'',
            Lit CHR '')''])]"

definition digits_rx :: regex where
  \<comment> \<open>\<open>\d+\<close>\<close>
  "digits_rx = Plus Digit"

definition year_suffix_rx :: regex where
  \<comment> \<open>\<open>[a-z]$\<close>\<close>
  "year_suffix_rx = Seq (Cls [CRange CHR ''a'' CHR ''z'']) Eol"

definition author_rx :: regex where
  \<comment> \<open>\<open>^[A-Za-z\s\-\.\']+$\<close>\<close>
  "author_rx = seqs [Bol,
     Plus (Cls [CRange CHR ''A'' CHR ''Z'', CRange CHR ''a'' CHR ''z'', CSpace,
                CChar CHR ''-'', CChar CHR ''.'', CChar (CHR 0x27)]),
     Eol]"

definition references_rx :: regex where
  \<comment> \<open>\<open>(?:References|Bibliography|Works Cited)\s*\n+(.*?)(?:\n\n|\Z)\<close>\<close>
  "references_rx = seqs [
     NonCap (Alt (lits ''References'') (Alt (lits ''Bibliography'') (lits ''Works Cited''))),
     Star Space, Plus (Lit CHR ''\<newline>''), Grp 1 (LazyStar Dot),
     NonCap (Alt (lits ''\<newline>\<newline>'') EndZ)]"

definition references_flags :: flags where
  \<comment> \<open>\<open>re.DOTALL | re.IGNORECASE\<close>\<close>
  "references_flags = \<lparr>ignorecase = True, dotall = True\<rparr>"


definition about_rx :: regex where
  \<comment> \<open>\<open>about (.+)\<close>\<close>
  "about_rx = Seq (lits ''about '') (Grp 1 (Plus Dot))"


section \<open>The citation extractor\<close>

text \<open>
  A citation is a dictionary of one of three shapes. The constructor \<open>Numerical\<close> is the
  shape with the entry \<open>"type": "numerical"\<close>; the field \<open>snippet\<close> is the entry
  \<open>"context"\<close>.
\<close>

datatype citation =
    Numerical (citation_text: string) (number: string) (citation_type: string) (snippet: string)
  | Single_author (author: string) (year: string) (citation_type: string) (snippet: string)
  | Two_authors (authors: "string list") (year: string) (citation_type: string) (snippet: string)

definition int_isspace :: "char \<Rightarrow> bool" where
  \<comment> \<open>the white space that \<open>int()\<close> skips around a number: tab to carriage return and the
      blank, and the white space outside ASCII, which \<open>int()\<close> turns into blanks first; the
      separators U+001C to U+001F, which \<open>strip()\<close> removes, are not skipped\<close>
  "int_isspace c = (let k = ord c in (9 \<le> k \<and> k \<le> 13) \<or> k = 32 \<or> k = 133 \<or> k = 160)"

definition int_strip :: "string \<Rightarrow> string" where
  "int_strip s = rev (dropWhile int_isspace (rev (dropWhile int_isspace s)))"

definition int_max_str_digits :: nat where
  \<comment> \<open>the interpreter's limit on the digits of a decimal text (its default)\<close>
  "int_max_str_digits = 4300"

definition digit_string :: "string \<Rightarrow> bool" where
  \<comment> \<open>what \<open>int()\<close> accepts after the sign: decimal digits, single underscores between
      them, not more digits than the limit\<close>
  "digit_string s =
     (s \<noteq> [] \<and> isdecimal (hd s) \<and> isdecimal (last s) \<and>
      list_all (\<lambda>c. isdecimal c \<or> c = CHR ''_'') s \<and>
      \<not> contains s ''__'' \<and>
      length (filter isdecimal s) \<le> int_max_str_digits)"

definition digits_value :: "string \<Rightarrow> int" where
  "digits_value s = foldl (\<lambda>acc c. 10 * acc + (int (ord c) - 48)) 0 (filter isdecimal s)"

definition py_int :: "string \<Rightarrow> int option" where
  \<comment> \<open>\<open>int(s)\<close>; \<open>None\<close> is the ValueError\<close>
  "py_int s =
     (let t = int_strip s;
          negative = (t \<noteq> [] \<and> hd t = CHR ''-'');
          body = (if t \<noteq> [] \<and> (hd t = CHR ''-'' \<or> hd t = CHR ''+'') then tl t else t)
      in if digit_string body
         then Some (if negative then - digits_value body else digits_value body)
         else None)"

definition validate_year :: "int \<Rightarrow> string \<Rightarrow> bool" where
  \<comment> \<open>\<open>_validate_year\<close>; \<open>current_year\<close> is \<open>datetime.now().year\<close>\<close>
  "validate_year current_year yr =
     (case py_int (re_sub year_suffix_rx no_flags [] yr) of
        None \<Rightarrow> False
      | Some year_int \<Rightarrow> 1800 \<le> year_int \<and> year_int \<le> current_year + 1)"

definition validate_author :: "string \<Rightarrow> bool" where
  \<comment> \<open>\<open>_validate_author\<close>\<close>
  "validate_author auth =
     (split_words_nonempty auth \<and>
      re_match author_rx no_flags auth \<noteq> None \<and>
      length auth \<ge> 2)"

definition context_window :: "string \<Rightarrow> rematch \<Rightarrow> string" where
  \<comment> \<open>\<open>current_text[max(0, match.start() - 50):min(len(current_text), match.end() + 50)].strip()\<close>;
      the subtraction of natural numbers stops at 0\<close>
  "context_window current_text m =
     (let lo = m_start m - 50; hi = min (length current_text) (m_end m + 50)
      in strip (take (hi - lo) (drop lo current_text)))"

type_synonym extraction_state = "citation list \<times> string set"

definition add_if_new :: "string \<Rightarrow> citation \<Rightarrow> extraction_state \<Rightarrow> extraction_state" where
  "add_if_new citation_key citation st =
     (if citation_key \<notin> snd st then (fst st @ [citation], insert citation_key (snd st)) else st)"

definition numerical_key :: "string \<Rightarrow> string \<Rightarrow> string \<Rightarrow> string" where
  "numerical_key ctype ctext num = ctype @ ''_'' @ ctext @ ''_'' @ num"

definition is_numerical :: "string \<Rightarrow> rematch \<Rightarrow> bool" where
  \<comment> \<open>\<open>'[' in pattern or '(' in pattern and any(c.isdigit() for c in match.group(0))\<close>\<close>
  "is_numerical pattern m =
     (CHR ''['' \<in> set pattern \<or> (CHR ''('' \<in> set pattern \<and> list_ex isdigit (m_group0 m)))"

definition numerical_branch :: "string \<Rightarrow> string \<Rightarrow> rematch \<Rightarrow> extraction_state \<Rightarrow> extraction_state" where
  "numerical_branch ctype current_text m st =
     (let ctext = m_group0 m;
          numbers = findall0 digits_rx no_flags ctext
      in if numbers = [] then st
         else
           let entry = (\<lambda>num. Numerical ctext num ctype (context_window current_text m));
               st' = fold (\<lambda>num. add_if_new (numerical_key ctype ctext num) (entry num))
                       numbers st
           in add_if_new (numerical_key ctype ctext (last numbers))
                (entry (last numbers)) st')"

definition two_author_branch :: "int \<Rightarrow> string \<Rightarrow> string \<Rightarrow> rematch \<Rightarrow> extraction_state \<Rightarrow> extraction_state" where
  "two_author_branch current_year ctype current_text m st =
     (case (group m 1, group m 2, group m 3) of
        (Some g1, Some g2, Some g3) \<Rightarrow>
          let author1 = strip g1; author2 = strip g2; yr = strip g3
          in if \<not> (validate_author author1 \<and> validate_author author2 \<and> validate_year current_year yr)
             then st
             else add_if_new (ctype @ ''_'' @ author1 @ ''_'' @ author2 @ ''_'' @ yr)
                    (Two_authors [author1, author2] yr ctype (context_window current_text m)) st
      | _ \<Rightarrow> st)"

definition single_author_branch :: "int \<Rightarrow> string \<Rightarrow> string \<Rightarrow> rematch \<Rightarrow> extraction_state \<Rightarrow> extraction_state" where
  "single_author_branch current_year ctype current_text m st =
     (case (group m 1, group m 2) of
        (Some g1, Some g2) \<Rightarrow>
          let auth = strip g1; yr = strip g2
          in if \<not> (validate_author auth \<and> validate_year current_year yr)
             then st
             else add_if_new (ctype @ ''_'' @ auth @ ''_'' @ yr)
                    (Single_author auth yr ctype (context_window current_text m)) st
      | _ \<Rightarrow> st)"

datatype branch = Numerical_branch | Two_author_branch | Single_author_branch

definition branch_of :: "string \<Rightarrow> rematch \<Rightarrow> branch" where
  \<comment> \<open>the \<open>if\<close>/\<open>elif\<close>/\<open>else\<close> of the loop body\<close>
  "branch_of pattern m =
     (if is_numerical pattern m then Numerical_branch
      else if contains pattern ''and'' then Two_author_branch
      else Single_author_branch)"

definition process_match :: "int \<Rightarrow> string \<Rightarrow> string \<Rightarrow> string \<Rightarrow> rematch \<Rightarrow> extraction_state \<Rightarrow> extraction_state" where
  \<comment> \<open>the body of the loop over the matches; a group that is missing raises in Python, and
      the handler of the loop body goes on with the next match\<close>
  "process_match current_year pattern ctype current_text m st =
     (case branch_of pattern m of
        Numerical_branch \<Rightarrow> numerical_branch ctype current_text m st
      | Two_author_branch \<Rightarrow> two_author_branch current_year ctype current_text m st
      | Single_author_branch \<Rightarrow> single_author_branch current_year ctype current_text m st)"

definition scan_pattern :: "int \<Rightarrow> string \<Rightarrow> string \<Rightarrow> string \<times> regex \<Rightarrow> extraction_state \<Rightarrow> extraction_state" where
  "scan_pattern current_year ctype current_text p st =
     fold (process_match current_year (fst p) ctype current_text)
       (finditer (snd p) no_flags current_text) st"

definition scan_text :: "int \<Rightarrow> string \<times> string \<Rightarrow> extraction_state \<Rightarrow> extraction_state" where
  "scan_text current_year t st = fold (scan_pattern current_year (snd t) (fst t)) patterns st"

definition references_text :: "string \<Rightarrow> string" where
  \<comment> \<open>\<open>references_match.group(1) if references_match else ""\<close>; group 1 takes part in
      every match of the pattern (lemma \<open>references_group\<close>)\<close>
  "references_text text =
     (case re_search references_rx references_flags text of
        None \<Rightarrow> []
      | Some m \<Rightarrow> (case group m 1 of Some g \<Rightarrow> g | None \<Rightarrow> []))"

definition texts_to_process :: "string \<Rightarrow> (string \<times> string) list" where
  "texts_to_process text = [(text, ''inline''), (references_text text, ''reference'')]"

definition extract_citations :: "int \<Rightarrow> string \<Rightarrow> citation list" where
  "extract_citations current_year text =
     (if text = [] then []
      else fst (fold (scan_text current_year) (texts_to_process text) ([], {})))"



definition lookahead_patterns :: "(string \<times> regex) list" where
  \<comment> \<open>a pattern list that is not the program's: \<open>(Smith)(?= \((\d{4})\))\<close>, an author
      followed by a year that the match looks at and does not take\<close>
  "lookahead_patterns = [
     (raw ''(Smith)(?= %((%d{4})%))'',
      Seq (Grp 1 (lits ''Smith''))
        (Look (seqs [Lit CHR '' '', Lit CHR ''('', Grp 2 year_rx, Lit CHR '')''])))]"

record process_result =
  success :: bool
  citations :: "citation list"
  error :: "string option"

definition process_text :: "int \<Rightarrow> string \<Rightarrow> process_result" where
  "process_text current_year text =
     (if text = [] then \<lparr>success = False, citations = [], error = Some ''Empty text provided''\<rparr>
      else \<lparr>success = True, citations = extract_citations current_year text, error = None\<rparr>)"


text \<open>The dedup key of a record, as the specification names it.\<close>

datatype key =
    Numerical_key string string string
  | Named_key string "string list" string

fun dedup_key :: "citation \<Rightarrow> key" where
  "dedup_key (Numerical ctext num ctype ctx) = Numerical_key ctype ctext num"
| "dedup_key (Single_author auth yr ctype ctx) = Named_key ctype [auth] yr"
| "dedup_key (Two_authors auths yr ctype ctx) = Named_key ctype auths yr"

fun is_named :: "citation \<Rightarrow> bool" where
  "is_named (Numerical ctext num ctype ctx) = False"
| "is_named (Single_author auth yr ctype ctx) = True"
| "is_named (Two_authors auths yr ctype ctx) = True"


section \<open>The task dispatcher\<close>

text \<open>
  \<open>ResearcherAgent.run\<close>. The search and the download are done by collaborators outside
  the program text; their calls are results of the model. A failure is the dictionary
  \<open>{"success": False, "error": message}\<close>.
\<close>

datatype run_result =
    Search_papers string "int option"
  | Process_paper string
  | Citations process_result
  | Failure string

definition agent_extract_citations :: "int \<Rightarrow> string \<Rightarrow> run_result" where
  \<comment> \<open>\<open>ResearcherAgent.extract_citations\<close>\<close>
  "agent_extract_citations current_year text = Citations (process_text current_year text)"

definition search_task :: "string \<Rightarrow> bool" where
  "search_task task_lower =
     (contains task_lower ''search'' \<and>
      (contains task_lower ''paper'' \<or> contains task_lower ''research''))"

definition download_task :: "string \<Rightarrow> bool" where
  "download_task task_lower =
     list_ex (\<lambda>word. contains task_lower word) [''download'', ''summarize'', ''read'']"

definition citation_task :: "string \<Rightarrow> bool" where
  "citation_task task_lower =
     (contains task_lower ''citation'' \<or> contains task_lower ''reference'')"

definition run :: "int \<Rightarrow> string \<Rightarrow> int option \<Rightarrow> run_result" where
  "run current_year task max_results =
     (if task = [] then Failure ''Invalid task: must be a non-empty string''
      else
        let task_lower = strip (lower task) in
        if search_task task_lower then
          (case re_search about_rx no_flags task_lower of
             Some m \<Rightarrow>
               (case group m 1 of
                  Some g \<Rightarrow> Search_papers (strip g) max_results
                | None \<Rightarrow> Failure (raw ''~NoneType~ object has no attribute ~strip~''))
           | None \<Rightarrow>
               Search_papers (strip (replace (replace task_lower ''search'') ''papers'')) max_results)
        else if download_task task_lower then
          (case find task ''http'' 0 of
             None \<Rightarrow> Failure ''No URL found in task''
           | Some url_start \<Rightarrow>
               let url_end = (case find task '' '' url_start of None \<Rightarrow> length task | Some e \<Rightarrow> e);
                   url = rstrip_chars ''.,;'' (take (url_end - url_start) (drop url_start task))
               in if url = [] then Failure ''Invalid URL in task'' else Process_paper url)
        else if citation_task task_lower then
          (let text_parts = split1 task CHR '':'' in
           if length text_parts < 2 then Failure ''No text provided for citation extraction''
           else
             let text = strip (text_parts ! 1) in
             if text = [] then Failure ''Empty text for citation extraction''
             else agent_extract_citations current_year text)
        else Failure (''Unknown task type: '' @ task))"


section \<open>Notions of the specification\<close>

definition references_block :: "string \<Rightarrow> (nat \<times> nat) option" where
  \<comment> \<open>the span of the references block: \<open>references_match.span(1)\<close>\<close>
  "references_block text =
     (case re_search references_rx references_flags text of
        None \<Rightarrow> None
      | Some m \<Rightarrow> group_span m 1)"

definition inside_block :: "string \<Rightarrow> rematch \<Rightarrow> bool" where
  \<comment> \<open>a match of the whole text that lies strictly inside the references block\<close>
  "inside_block text m =
     (case references_block text of
        None \<Rightarrow> False
      | Some (b, e) \<Rightarrow> b < m_start m \<and> m_end m < e)"


definition scan_records :: "int \<Rightarrow> string \<times> string \<Rightarrow> citation list" where
  \<comment> \<open>the records of the scan of one text with its citation type, on its own\<close>
  "scan_records current_year t = fst (scan_text current_year t ([], {}))"

definition text_after_colon :: "string \<Rightarrow> string" where
  \<comment> \<open>the text after the first colon of a task that has one\<close>
  "text_after_colon task = tl (dropWhile (\<lambda>c. c \<noteq> CHR '':'') task)"


section \<open>Notions of the proofs\<close>

text \<open>
  \<open>consumes Q a\<close>: every state the matcher \<open>a\<close> returns is a suffix of the state it
  started from, and the text in between satisfies \<open>Q\<close>.
\<close>

definition consumes :: "(string \<Rightarrow> bool) \<Rightarrow> matcher \<Rightarrow> bool" where
  "consumes Q a = (\<forall>st st'. st' \<in> set (a st) \<longrightarrow> (\<exists>w. fst st = w @ fst st' \<and> Q w))"

text \<open>
  \<open>keeps a\<close>: the matcher \<open>a\<close> loses no group that was captured before it;
  \<open>binds i a\<close>: every state it returns has a capture of group \<open>i\<close>.
\<close>

definition keeps :: "matcher \<Rightarrow> bool" where
  "keeps a = (\<forall>st st'. st' \<in> set (a st) \<longrightarrow> fst ` set (snd st) \<subseteq> fst ` set (snd st'))"

definition binds :: "nat \<Rightarrow> matcher \<Rightarrow> bool" where
  "binds i a = (\<forall>st st'. st' \<in> set (a st) \<longrightarrow> i \<in> fst ` set (snd st'))"

text \<open>
  \<open>keyed\<close> is the invariant of the loops for the seen set; \<open>appends P st st'\<close>: the
  records of \<open>st'\<close> are those of \<open>st\<close> followed by records that satisfy \<open>P\<close>.
\<close>

fun key_text :: "key \<Rightarrow> string" where
  \<comment> \<open>the \<open>citation_key\<close> that the program computes for a record with this dedup key\<close>
  "key_text (Numerical_key ctype ctext num) = numerical_key ctype ctext num"
| "key_text (Named_key ctype auths yr) = ctype @ concat (map (\<lambda>a. ''_'' @ a) auths) @ ''_'' @ yr"

definition keyed :: "extraction_state \<Rightarrow> bool" where
  \<comment> \<open>\<open>seen_citations\<close> holds the keys of the records kept so far, each once\<close>
  "keyed st =
     (snd st = set (map (\<lambda>r. key_text (dedup_key r)) (fst st)) \<and>
      distinct (map (\<lambda>r. key_text (dedup_key r)) (fst st)))"

definition from_scan :: "string \<Rightarrow> string \<Rightarrow> citation \<Rightarrow> bool" where
  \<comment> \<open>a numerical record with this citation type whose citation text occurs in the
      text that was scanned\<close>
  "from_scan ctype current_text r =
     (\<not> is_named r \<and> citation_type r = ctype \<and> contains current_text (citation_text r))"

definition appends :: "(citation \<Rightarrow> bool) \<Rightarrow> extraction_state \<Rightarrow> extraction_state \<Rightarrow> bool" where
  "appends P st st' = (\<exists>new. fst st' = fst st @ new \<and> list_all P new)"

definition lifted :: "citation list \<Rightarrow> string set \<Rightarrow> extraction_state \<Rightarrow> extraction_state \<Rightarrow> bool" where
  \<comment> \<open>\<open>st'\<close> is \<open>st\<close> with earlier records in front and earlier keys in the seen set\<close>
  "lifted pre S0 st st' = (fst st' = pre @ fst st \<and> snd st' = S0 \<union> snd st)"


section \<open>Properties of the matcher\<close>

lemma consumesD: "consumes Q a \<Longrightarrow> st' \<in> set (a st) \<Longrightarrow> \<exists>w. fst st = w @ fst st' \<and> Q w"
  unfolding consumes_def by blast

lemma consumesI:
  "(\<And>st st'. st' \<in> set (a st) \<Longrightarrow> \<exists>w. fst st = w @ fst st' \<and> Q w) \<Longrightarrow> consumes Q a"
  unfolding consumes_def by blast

lemma consumes_weaken: "consumes Q a \<Longrightarrow> (\<And>w. Q w \<Longrightarrow> Q' w) \<Longrightarrow> consumes Q' a"
  unfolding consumes_def by blast

lemma consumes_char: "consumes (\<lambda>w. \<exists>c. w = [c] \<and> P c) (m_char P)"
  unfolding consumes_def m_char_def by (auto split: list.splits if_splits)

lemma consumes_test: "consumes (\<lambda>w. w = []) (m_test P)"
  unfolding consumes_def m_test_def by (auto split: if_splits)

lemma consumes_seq:
  assumes "consumes Q1 a" and "consumes Q2 b"
  shows "consumes (\<lambda>w. \<exists>u v. w = u @ v \<and> Q1 u \<and> Q2 v) (m_seq a b)"
  unfolding consumes_def
proof (intro allI impI)
  fix st st'
  assume "st' \<in> set (m_seq a b st)"
  then obtain mid where mid: "mid \<in> set (a st)" and fin: "st' \<in> set (b mid)"
    by (auto simp: m_seq_def)
  from consumesD [OF assms(1) mid] obtain u where u: "fst st = u @ fst mid" "Q1 u" by blast
  from consumesD [OF assms(2) fin] obtain v where v: "fst mid = v @ fst st'" "Q2 v" by blast
  from u v have "fst st = (u @ v) @ fst st'" by simp
  with u v show "\<exists>w. fst st = w @ fst st' \<and> (\<exists>u v. w = u @ v \<and> Q1 u \<and> Q2 v)" by blast
qed

lemma consumes_seq_any:
  "consumes (\<lambda>w. True) a \<Longrightarrow> consumes (\<lambda>w. True) b \<Longrightarrow> consumes (\<lambda>w. True) (m_seq a b)"
  by (rule consumes_weaken [OF consumes_seq]) auto

lemma consumes_seq_left:
  assumes "consumes Q a" and "consumes (\<lambda>w. True) b" and "\<And>u v. Q u \<Longrightarrow> Q (u @ v)"
  shows "consumes Q (m_seq a b)"
  by (rule consumes_weaken [OF consumes_seq [OF assms(1,2)]]) (auto intro: assms(3))

lemma consumes_seq_right:
  assumes "consumes (\<lambda>w. True) a" and "consumes Q b" and "\<And>u v. Q v \<Longrightarrow> Q (u @ v)"
  shows "consumes Q (m_seq a b)"
  by (rule consumes_weaken [OF consumes_seq [OF assms(1,2)]]) (auto intro: assms(3))

lemma consumes_alt:
  assumes "consumes Q a" and "consumes Q b"
  shows "consumes Q (m_alt a b)"
proof (rule consumesI)
  fix st st'
  assume "st' \<in> set (m_alt a b st)"
  then have "st' \<in> set (a st) \<or> st' \<in> set (b st)" by (simp add: m_alt_def)
  then show "\<exists>w. fst st = w @ fst st' \<and> Q w"
    using consumesD [OF assms(1)] consumesD [OF assms(2)] by blast
qed

lemma consumes_iter:
  assumes "consumes (\<lambda>w. True) a"
  shows "consumes (\<lambda>w. True) (m_iter k a)"
proof (induction k)
  case 0
  show ?case by (simp add: consumes_def)
next
  case (Suc k)
  show ?case unfolding consumes_def
  proof (intro allI impI)
    fix st st'
    assume "st' \<in> set (m_iter (Suc k) a st)"
    then consider "st' = st" | mid where "mid \<in> set (a st)" "st' \<in> set (m_iter k a mid)"
      by auto
    then show "\<exists>w. fst st = w @ fst st' \<and> True"
    proof cases
      case 1
      then show ?thesis by simp
    next
      case 2
      from consumesD [OF assms 2(1)] obtain u where "fst st = u @ fst mid" by blast
      moreover from consumesD [OF Suc.IH 2(2)] obtain v where "fst mid = v @ fst st'" by blast
      ultimately have "fst st = (u @ v) @ fst st'" by simp
      then show ?thesis by blast
    qed
  qed
qed

lemma consumes_iter_lazy:
  assumes "consumes (\<lambda>w. True) a"
  shows "consumes (\<lambda>w. True) (m_iter_lazy k a)"
proof (induction k)
  case 0
  show ?case by (simp add: consumes_def)
next
  case (Suc k)
  show ?case unfolding consumes_def
  proof (intro allI impI)
    fix st st'
    assume "st' \<in> set (m_iter_lazy (Suc k) a st)"
    then consider "st' = st" | mid where "mid \<in> set (a st)" "st' \<in> set (m_iter_lazy k a mid)"
      by auto
    then show "\<exists>w. fst st = w @ fst st' \<and> True"
    proof cases
      case 1
      then show ?thesis by simp
    next
      case 2
      from consumesD [OF assms 2(1)] obtain u where "fst st = u @ fst mid" by blast
      moreover from consumesD [OF Suc.IH 2(2)] obtain v where "fst mid = v @ fst st'" by blast
      ultimately have "fst st = (u @ v) @ fst st'" by simp
      then show ?thesis by blast
    qed
  qed
qed

lemma consumes_star: "consumes (\<lambda>w. True) a \<Longrightarrow> consumes (\<lambda>w. True) (m_star a)"
  using consumes_iter [of a] by (simp add: consumes_def m_star_def)

lemma consumes_lazy_star: "consumes (\<lambda>w. True) a \<Longrightarrow> consumes (\<lambda>w. True) (m_lazy_star a)"
  using consumes_iter_lazy [of a] by (simp add: consumes_def m_lazy_star_def)

lemma consumes_rep: "consumes (\<lambda>w. True) a \<Longrightarrow> consumes (\<lambda>w. True) (m_rep k a)"
proof (induction k)
  case 0
  show ?case by (simp add: consumes_def)
next
  case (Suc k)
  then have "consumes (\<lambda>w. True) (m_seq a (m_rep k a))" by (simp add: consumes_seq_any)
  then show ?case by (simp add: consumes_def)
qed

lemma consumes_group:
  assumes "consumes Q a"
  shows "consumes Q (m_group len i a)"
proof (rule consumesI)
  fix st st'
  assume "st' \<in> set (m_group len i a st)"
  then obtain st2 where "st2 \<in> set (a st)" and "fst st' = fst st2"
    by (auto simp: m_group_def)
  then show "\<exists>w. fst st = w @ fst st' \<and> Q w"
    using consumesD [OF assms] by metis
qed

lemma consumes_look: "consumes (\<lambda>w. True) (m_look a)"
  by (rule consumesI) (auto simp: m_look_def split: list.splits)

lemma consumes_any: "consumes Q a \<Longrightarrow> consumes (\<lambda>w. True) a"
  by (erule consumes_weaken) simp

lemma rmatch_consumes: "consumes (\<lambda>w. True) (rmatch r fl len)"
proof (induction r)
  case (Plus r)
  then show ?case by (simp add: consumes_seq_any consumes_star)
next
  case (Opt r)
  then show ?case by (simp add: consumes_alt consumes_any [OF consumes_test])
qed (simp_all add: consumes_any [OF consumes_char] consumes_any [OF consumes_test]
      consumes_seq_any consumes_alt consumes_star consumes_lazy_star consumes_rep consumes_group
      consumes_look)

lemma first_match_in:
  "first_match r fl len s adv = Some st' \<Longrightarrow> st' \<in> set (rmatch r fl len (s, []))"
proof -
  assume a: "first_match r fl len s adv = Some st'"
  let ?xs = "filter (\<lambda>st'. \<not> adv \<or> advances (s, []) st') (rmatch r fl len (s, []))"
  from a have "?xs \<noteq> [] \<and> st' = hd ?xs"
    by (auto simp: first_match_def split: list.splits)
  then have "st' \<in> set ?xs" by (metis list.set_sel(1))
  then show ?thesis by simp
qed

lemma mk_match_group0:
  assumes "consumes Q (rmatch r fl len)" and "st' \<in> set (rmatch r fl len (s, []))"
  shows "Q (m_group0 (mk_match len s st'))"
proof -
  from consumesD [OF assms] obtain w where "s = w @ fst st'" "Q w" by auto
  then show ?thesis by (simp add: mk_match_def)
qed

lemma finditer_from_group0:
  "consumes Q (rmatch r fl len) \<Longrightarrow> m \<in> set (finditer_from r fl len s adv) \<Longrightarrow> Q (m_group0 m)"
proof (induction r fl len s adv rule: finditer_from.induct)
  case (1 r fl len s must_advance)
  note cons = "1.prems"(1) and mem = "1.prems"(2)
  show ?case
  proof (cases "first_match r fl len s must_advance")
    case None
    show ?thesis
    proof (cases s)
      case Nil
      with None mem show ?thesis
        by (simp add: finditer_from.simps [of r fl len "[]" must_advance])
    next
      case (Cons c cs)
      with None mem have "m \<in> set (finditer_from r fl len cs False)"
        by (simp add: finditer_from.simps [of r fl len "c # cs" must_advance])
      then show ?thesis using "1.IH"(1) [OF None Cons cons] by simp
    qed
  next
    case (Some st')
    with mem have "m = mk_match len s st' \<or>
        (advances (s, []) st' \<and> m \<in> set (finditer_from r fl len (fst st') False)) \<or>
        (\<not> advances (s, []) st' \<and> m \<in> set (finditer_from r fl len s True))"
      by (auto simp: finditer_from.simps [of r fl len s must_advance] split: if_splits)
    then consider (a) "m = mk_match len s st'"
      | (b) "advances (s, []) st'" "m \<in> set (finditer_from r fl len (fst st') False)"
      | (c) "\<not> advances (s, []) st'" "m \<in> set (finditer_from r fl len s True)"
      by blast
    then show ?thesis
    proof cases
      case a
      then show ?thesis using mk_match_group0 [OF cons first_match_in [OF Some]] by simp
    next
      case b
      then show ?thesis using "1.IH"(2) [OF Some _ cons] by simp
    next
      case c
      then show ?thesis using "1.IH"(3) [OF Some _ cons] by simp
    qed
  qed
qed

lemma finditer_group0:
  "consumes Q (rmatch r fl (length text)) \<Longrightarrow> m \<in> set (finditer r fl text) \<Longrightarrow> Q (m_group0 m)"
  unfolding finditer_def by (rule finditer_from_group0)


lemma isdecimal_isdigit: "isdecimal c \<Longrightarrow> isdigit c"
  by (simp add: isdecimal_def isdigit_def Let_def)

lemma plus_digit_consumes:
  "consumes (\<lambda>w. \<exists>c\<in>set w. isdecimal c) (rmatch (Plus Digit) fl len)"
proof -
  have "consumes (\<lambda>w. \<exists>c\<in>set w. isdecimal c) (m_char isdecimal)"
    by (rule consumes_weaken [OF consumes_char]) auto
  moreover have "consumes (\<lambda>w. True) (m_star (m_char isdecimal))"
    by (rule consumes_star [OF consumes_any [OF consumes_char]])
  ultimately have "consumes (\<lambda>w. \<exists>c\<in>set w. isdecimal c)
      (m_seq (m_char isdecimal) (m_star (m_char isdecimal)))"
    by (rule consumes_seq_left) auto
  then show ?thesis by simp
qed

lemma numlist_consumes:
  "consumes (\<lambda>w. \<exists>c\<in>set w. isdecimal c) (rmatch numlist_rx fl len)"
proof -
  have "consumes (\<lambda>w. \<exists>c\<in>set w. isdecimal c)
      (m_seq (rmatch (Plus Digit) fl len)
         (rmatch (Star (NonCap (seqs [Lit CHR '','', Star Space, Plus Digit]))) fl len))"
    by (rule consumes_seq_left [OF plus_digit_consumes rmatch_consumes]) auto
  then show ?thesis by (simp add: numlist_rx_def)
qed

lemma paren_consumes:
  assumes "consumes (\<lambda>w. \<exists>c\<in>set w. isdecimal c) (rmatch r fl len)"
  shows "consumes (\<lambda>w. \<exists>c\<in>set w. isdecimal c)
    (rmatch (seqs [Lit CHR ''('', Grp 1 r, Lit CHR '')'']) fl len)"
proof -
  have "consumes (\<lambda>w. \<exists>c\<in>set w. isdecimal c) (rmatch (Grp 1 r) fl len)"
    using assms by (simp add: consumes_group)
  then have "consumes (\<lambda>w. \<exists>c\<in>set w. isdecimal c)
      (m_seq (rmatch (Grp 1 r) fl len) (rmatch (Lit CHR '')'') fl len))"
    by (rule consumes_seq_left [OF _ rmatch_consumes]) auto
  then have "consumes (\<lambda>w. \<exists>c\<in>set w. isdecimal c)
      (m_seq (rmatch (Lit CHR ''('') fl len)
         (m_seq (rmatch (Grp 1 r) fl len) (rmatch (Lit CHR '')'') fl len)))"
    by (rule consumes_seq_right [OF rmatch_consumes]) auto
  then show ?thesis by simp
qed

lemma patterns_shape:
  "p \<in> set patterns \<Longrightarrow>
     CHR ''['' \<in> set (fst p) \<or>
     (CHR ''('' \<in> set (fst p) \<and>
      (snd p = seqs [Lit CHR ''('', Grp 1 (Plus Digit), Lit CHR '')''] \<or>
       snd p = seqs [Lit CHR ''('', Grp 1 numlist_rx, Lit CHR '')'']))"
  unfolding patterns_def raw_def by (elim set_ConsD [elim_format]) auto

lemma library_is_numerical:
  assumes "p \<in> set patterns" and "m \<in> set (finditer (snd p) fl current_text)"
  shows "is_numerical (fst p) m"
proof -
  from patterns_shape [OF assms(1)] consider
      (bracket) "CHR ''['' \<in> set (fst p)"
    | (paren1) "CHR ''('' \<in> set (fst p)" "snd p = seqs [Lit CHR ''('', Grp 1 (Plus Digit), Lit CHR '')'']"
    | (paren2) "CHR ''('' \<in> set (fst p)" "snd p = seqs [Lit CHR ''('', Grp 1 numlist_rx, Lit CHR '')'']"
    by blast
  then show ?thesis
  proof cases
    case bracket
    then show ?thesis by (simp add: is_numerical_def)
  next
    case paren1
    from finditer_group0 [OF paren_consumes [OF plus_digit_consumes]] assms(2) paren1(2)
    have "\<exists>c\<in>set (m_group0 m). isdecimal c" by metis
    with paren1(1) show ?thesis
      by (auto simp: is_numerical_def list_ex_iff intro: isdecimal_isdigit)
  next
    case paren2
    from finditer_group0 [OF paren_consumes [OF numlist_consumes]] assms(2) paren2(2)
    have "\<exists>c\<in>set (m_group0 m). isdecimal c" by metis
    with paren2(1) show ?thesis
      by (auto simp: is_numerical_def list_ex_iff intro: isdecimal_isdigit)
  qed
qed

lemma process_match_library:
  assumes "p \<in> set patterns" and "m \<in> set (finditer (snd p) no_flags current_text)"
  shows "process_match current_year (fst p) ctype current_text m st =
         numerical_branch ctype current_text m st"
  using library_is_numerical [OF assms] by (simp add: process_match_def branch_of_def)

text \<open>
  The repetitions never run out of rounds: more rounds than characters are left give the
  same result.
\<close>

lemma m_iter_fuel:
  "length (fst st) \<le> k \<Longrightarrow> m_iter k a st = m_iter (length (fst st)) a st"
proof (induction k arbitrary: st rule: less_induct)
  case (less k)
  show ?case
  proof (cases k)
    case 0
    with less.prems show ?thesis by simp
  next
    case (Suc k')
    let ?F = "filter (advances st) (a st)"
    have short: "length (fst st') < length (fst st)" if "st' \<in> set ?F" for st'
      using that by (simp add: advances_def)
    have 1: "map (m_iter k' a) ?F = map (\<lambda>st'. m_iter (length (fst st')) a st') ?F"
    proof (rule map_cong [OF refl])
      fix st'
      assume "st' \<in> set ?F"
      then have "length (fst st') \<le> k'" using short less.prems Suc by fastforce
      then show "m_iter k' a st' = m_iter (length (fst st')) a st'"
        using less.IH [of k' st'] Suc by simp
    qed
    have lhs: "m_iter k a st = concat (map (m_iter k' a) ?F) @ [st]"
      using Suc by simp
    show ?thesis
    proof (cases "length (fst st)")
      case 0
      then have "?F = []" using short by (cases ?F) fastforce+
      with 0 lhs show ?thesis by simp
    next
      case len: (Suc n)
      have 2: "map (m_iter n a) ?F = map (\<lambda>st'. m_iter (length (fst st')) a st') ?F"
      proof (rule map_cong [OF refl])
        fix st'
        assume st': "st' \<in> set ?F"
        then have le: "length (fst st') \<le> n" using short len by fastforce
        have "n < k" using len less.prems by simp
        then show "m_iter n a st' = m_iter (length (fst st')) a st'"
          using less.IH [of n st'] le by simp
      qed
      have "m_iter (length (fst st)) a st = concat (map (m_iter n a) ?F) @ [st]"
        using len by simp
      with lhs 1 2 show ?thesis by (simp only:)
    qed
  qed
qed

lemma m_iter_lazy_fuel:
  "length (fst st) \<le> k \<Longrightarrow> m_iter_lazy k a st = m_iter_lazy (length (fst st)) a st"
proof (induction k arbitrary: st rule: less_induct)
  case (less k)
  show ?case
  proof (cases k)
    case 0
    with less.prems show ?thesis by simp
  next
    case (Suc k')
    let ?F = "filter (advances st) (a st)"
    have short: "length (fst st') < length (fst st)" if "st' \<in> set ?F" for st'
      using that by (simp add: advances_def)
    have 1: "map (m_iter_lazy k' a) ?F = map (\<lambda>st'. m_iter_lazy (length (fst st')) a st') ?F"
    proof (rule map_cong [OF refl])
      fix st'
      assume "st' \<in> set ?F"
      then have "length (fst st') \<le> k'" using short less.prems Suc by fastforce
      then show "m_iter_lazy k' a st' = m_iter_lazy (length (fst st')) a st'"
        using less.IH [of k' st'] Suc by simp
    qed
    have lhs: "m_iter_lazy k a st = st # concat (map (m_iter_lazy k' a) ?F)"
      using Suc by simp
    show ?thesis
    proof (cases "length (fst st)")
      case 0
      then have "?F = []" using short by (cases ?F) fastforce+
      with 0 lhs show ?thesis by simp
    next
      case len: (Suc n)
      have 2: "map (m_iter_lazy n a) ?F = map (\<lambda>st'. m_iter_lazy (length (fst st')) a st') ?F"
      proof (rule map_cong [OF refl])
        fix st'
        assume st': "st' \<in> set ?F"
        then have le: "length (fst st') \<le> n" using short len by fastforce
        have "n < k" using len less.prems by simp
        then show "m_iter_lazy n a st' = m_iter_lazy (length (fst st')) a st'"
          using less.IH [of n st'] le by simp
      qed
      have "m_iter_lazy (length (fst st)) a st = st # concat (map (m_iter_lazy n a) ?F)"
        using len by simp
      with lhs 1 2 show ?thesis by (simp only:)
    qed
  qed
qed

lemma keepsD: "keeps a \<Longrightarrow> st' \<in> set (a st) \<Longrightarrow> fst ` set (snd st) \<subseteq> fst ` set (snd st')"
  unfolding keeps_def by blast

lemma keepsI:
  "(\<And>st st'. st' \<in> set (a st) \<Longrightarrow> fst ` set (snd st) \<subseteq> fst ` set (snd st')) \<Longrightarrow> keeps a"
  unfolding keeps_def by blast

lemma keeps_char: "keeps (m_char P)"
  by (rule keepsI) (auto simp: m_char_def split: list.splits if_splits)

lemma keeps_test: "keeps (m_test P)"
  by (rule keepsI) (auto simp: m_test_def split: if_splits)

lemma keeps_seq:
  assumes "keeps a" and "keeps b"
  shows "keeps (m_seq a b)"
proof (rule keepsI)
  fix st st'
  assume "st' \<in> set (m_seq a b st)"
  then obtain mid where "mid \<in> set (a st)" and "st' \<in> set (b mid)"
    by (auto simp: m_seq_def)
  then show "fst ` set (snd st) \<subseteq> fst ` set (snd st')"
    using keepsD [OF assms(1)] keepsD [OF assms(2)] by blast
qed

lemma keeps_alt:
  assumes "keeps a" and "keeps b"
  shows "keeps (m_alt a b)"
proof (rule keepsI)
  fix st st'
  assume "st' \<in> set (m_alt a b st)"
  then have "st' \<in> set (a st) \<or> st' \<in> set (b st)" by (simp add: m_alt_def)
  then show "fst ` set (snd st) \<subseteq> fst ` set (snd st')"
    using keepsD [OF assms(1)] keepsD [OF assms(2)] by blast
qed

lemma keeps_iter:
  assumes "keeps a"
  shows "keeps (m_iter k a)"
proof (induction k)
  case 0
  show ?case by (rule keepsI) simp
next
  case (Suc k)
  show ?case
  proof (rule keepsI)
    fix st st'
    assume "st' \<in> set (m_iter (Suc k) a st)"
    then consider "st' = st" | mid where "mid \<in> set (a st)" "st' \<in> set (m_iter k a mid)"
      by auto
    then show "fst ` set (snd st) \<subseteq> fst ` set (snd st')"
    proof cases
      case 1
      then show ?thesis by simp
    next
      case 2
      then show ?thesis using keepsD [OF assms] keepsD [OF Suc.IH] by blast
    qed
  qed
qed

lemma keeps_iter_lazy:
  assumes "keeps a"
  shows "keeps (m_iter_lazy k a)"
proof (induction k)
  case 0
  show ?case by (rule keepsI) simp
next
  case (Suc k)
  show ?case
  proof (rule keepsI)
    fix st st'
    assume "st' \<in> set (m_iter_lazy (Suc k) a st)"
    then consider "st' = st" | mid where "mid \<in> set (a st)" "st' \<in> set (m_iter_lazy k a mid)"
      by auto
    then show "fst ` set (snd st) \<subseteq> fst ` set (snd st')"
    proof cases
      case 1
      then show ?thesis by simp
    next
      case 2
      then show ?thesis using keepsD [OF assms] keepsD [OF Suc.IH] by blast
    qed
  qed
qed

lemma keeps_star: "keeps a \<Longrightarrow> keeps (m_star a)"
  using keeps_iter [of a] by (simp add: keeps_def m_star_def)

lemma keeps_lazy_star: "keeps a \<Longrightarrow> keeps (m_lazy_star a)"
  using keeps_iter_lazy [of a] by (simp add: keeps_def m_lazy_star_def)

lemma keeps_rep: "keeps a \<Longrightarrow> keeps (m_rep k a)"
proof (induction k)
  case 0
  show ?case by (rule keepsI) simp
next
  case (Suc k)
  then have "keeps (m_seq a (m_rep k a))" by (simp add: keeps_seq)
  then show ?case by (simp add: keeps_def)
qed

lemma keeps_group:
  assumes "keeps a"
  shows "keeps (m_group len i a)"
proof (rule keepsI)
  fix st st'
  assume "st' \<in> set (m_group len i a st)"
  then obtain st2 b where "st2 \<in> set (a st)" and "snd st' = b # snd st2"
    by (auto simp: m_group_def)
  then show "fst ` set (snd st) \<subseteq> fst ` set (snd st')"
    using keepsD [OF assms, of st2 st] by auto
qed

lemma keeps_look:
  assumes "keeps a"
  shows "keeps (m_look a)"
proof (rule keepsI)
  fix st st'
  assume mem: "st' \<in> set (m_look a st)"
  show "fst ` set (snd st) \<subseteq> fst ` set (snd st')"
  proof (cases "a st")
    case Nil
    with mem show ?thesis by (simp add: m_look_def)
  next
    case (Cons st2 rest)
    with mem have "snd st' = snd st2" by (simp add: m_look_def)
    moreover from Cons have "st2 \<in> set (a st)" by simp
    ultimately show ?thesis using keepsD [OF assms, of st2 st] by auto
  qed
qed

lemma rmatch_keeps: "keeps (rmatch r fl len)"
  by (induction r)
    (simp_all add: keeps_char keeps_test keeps_seq keeps_alt keeps_star keeps_lazy_star
      keeps_rep keeps_group keeps_look)

lemma binds_group: "binds i (m_group len i a)"
  unfolding binds_def m_group_def by auto

lemma binds_seq_left:
  assumes "binds i a" and "keeps b"
  shows "binds i (m_seq a b)"
  unfolding binds_def
proof (intro allI impI)
  fix st st'
  assume "st' \<in> set (m_seq a b st)"
  then obtain mid where "mid \<in> set (a st)" and "st' \<in> set (b mid)"
    by (auto simp: m_seq_def)
  then show "i \<in> fst ` set (snd st')"
    using assms(1) keepsD [OF assms(2)] unfolding binds_def by blast
qed

lemma binds_seq_right: "binds i b \<Longrightarrow> binds i (m_seq a b)"
  unfolding binds_def m_seq_def by auto

lemma references_binds: "binds 1 (rmatch references_rx fl len)"
proof -
  let ?tail = "NonCap (Alt (lits ''\<newline>\<newline>'') EndZ)"
  have "binds 1 (rmatch (Grp 1 (LazyStar Dot)) fl len)"
    by (simp only: rmatch.simps(17) binds_group)
  then have "binds 1 (m_seq (rmatch (Grp 1 (LazyStar Dot)) fl len) (rmatch ?tail fl len))"
    by (rule binds_seq_left) (rule rmatch_keeps)
  then show ?thesis
    unfolding references_rx_def by (simp only: seqs.simps rmatch.simps(10) binds_seq_right)
qed

lemma search_from_first:
  "search_from r fl len s = Some m \<Longrightarrow>
     \<exists>s' st'. first_match r fl len s' False = Some st' \<and> m = mk_match len s' st'"
proof (induction s)
  case Nil
  then show ?case by (auto split: option.splits)
next
  case (Cons c cs)
  then show ?case by (cases "first_match r fl len (c # cs) False") auto
qed

lemma references_group:
  assumes "re_search references_rx references_flags text = Some m"
  shows "group m 1 \<noteq> None"
proof -
  from assms obtain s' st' where
    fm: "first_match references_rx references_flags (length text) s' False = Some st'"
    and m: "m = mk_match (length text) s' st'"
    unfolding re_search_def using search_from_first by blast
  from first_match_in [OF fm] references_binds
  have "1 \<in> fst ` set (snd st')" unfolding binds_def by blast
  then have "map_of (snd st') 1 \<noteq> None" by (simp add: map_of_eq_None_iff)
  with m show ?thesis by (simp add: group_def mk_match_def)
qed

lemma patterns_rendered: "list_all (\<lambda>p. render (snd p) = fst p) patterns"
  by code_simp

lemma other_patterns_rendered:
  "list_all (\<lambda>p. render (snd p) = fst p) lookahead_patterns"
  "render digits_rx = raw ''%d+''"
  "render year_suffix_rx = raw ''[a-z]$''"
  "render author_rx = raw ''^[A-Za-z%s%-%.%~]+$''"
  "render references_rx = raw ''(?:References|Bibliography|Works Cited)%s*%n+(.*?)(?:%n%n|%Z)''"
  "render about_rx = ''about (.+)''"
  by code_simp+


section \<open>Properties of the extraction loop\<close>

lemma fold_invariant:
  assumes "P st" and "\<And>x st. x \<in> set xs \<Longrightarrow> P st \<Longrightarrow> P (f x st)"
  shows "P (fold f xs st)"
  using assms by (induction xs arbitrary: st) auto

lemma add_if_new_keyed:
  "keyed st \<Longrightarrow> k = key_text (dedup_key c) \<Longrightarrow> keyed (add_if_new k c st)"
  by (auto simp: keyed_def add_if_new_def)

lemma numerical_branch_keyed: "keyed st \<Longrightarrow> keyed (numerical_branch ctype current_text m st)"
proof -
  assume st: "keyed st"
  let ?ctext = "m_group0 m"
  let ?entry = "\<lambda>num. Numerical ?ctext num ctype (context_window current_text m)"
  let ?step = "\<lambda>num. add_if_new (numerical_key ctype ?ctext num) (?entry num)"
  have step: "keyed (?step num st')" if "keyed st'" for num st'
    using that by (rule add_if_new_keyed) simp
  have "keyed (fold ?step nums st)" for nums
    by (rule fold_invariant [where P = keyed, OF st]) (rule step)
  then show ?thesis
    using st by (simp add: numerical_branch_def Let_def step)
qed

lemma two_author_branch_keyed:
  "keyed st \<Longrightarrow> keyed (two_author_branch current_year ctype current_text m st)"
  unfolding two_author_branch_def Let_def
  by (simp add: add_if_new_keyed split: option.splits)

lemma single_author_branch_keyed:
  "keyed st \<Longrightarrow> keyed (single_author_branch current_year ctype current_text m st)"
  unfolding single_author_branch_def Let_def
  by (simp add: add_if_new_keyed split: option.splits)

lemma process_match_keyed:
  "keyed st \<Longrightarrow> keyed (process_match current_year pattern ctype current_text m st)"
  unfolding process_match_def
  by (simp add: numerical_branch_keyed two_author_branch_keyed single_author_branch_keyed
      split: branch.splits)

lemma scan_text_keyed: "keyed st \<Longrightarrow> keyed (scan_text current_year t st)"
proof -
  assume st: "keyed st"
  have "keyed (scan_pattern current_year ctype current_text p st')" if "keyed st'"
    for ctype current_text p st'
    unfolding scan_pattern_def
    by (rule fold_invariant [where P = keyed, OF that]) (rule process_match_keyed)
  then show ?thesis
    unfolding scan_text_def by (intro fold_invariant [where P = keyed, OF st])
qed

lemma extract_keyed:
  "keyed (fold (scan_text current_year) ts ([], {}))"
proof (rule fold_invariant [where P = keyed])
  show "keyed ([], {})" by (simp add: keyed_def)
qed (rule scan_text_keyed)

lemma startswith_iff: "startswith s sub \<longleftrightarrow> (\<exists>post. s = sub @ post)"
  unfolding startswith_def by (metis append_eq_conv_conj append_take_drop_id)

lemma contains_iff: "contains s sub \<longleftrightarrow> (\<exists>pre post. s = pre @ sub @ post)"
proof (induction s)
  case Nil
  show ?case by auto
next
  case (Cons c cs)
  have "(\<exists>pre post. c # cs = pre @ sub @ post) \<longleftrightarrow>
        (\<exists>post. c # cs = sub @ post) \<or> (\<exists>pre post. cs = pre @ sub @ post)"
    by (auto simp: Cons_eq_append_conv)
  with Cons show ?case by (simp add: startswith_iff)
qed

lemma appends_refl: "appends P st st"
  by (simp add: appends_def)

lemma appends_trans: "appends P st st' \<Longrightarrow> appends P st' st'' \<Longrightarrow> appends P st st''"
  unfolding appends_def by (metis append.assoc list_all_append)

lemma add_if_new_appends: "P c \<Longrightarrow> appends P st (add_if_new k c st)"
  by (simp add: appends_def add_if_new_def)

lemma fold_appends:
  assumes "\<And>x st. x \<in> set xs \<Longrightarrow> appends P st (f x st)"
  shows "appends P st (fold f xs st)"
  using assms
proof (induction xs arbitrary: st)
  case Nil
  show ?case by (simp add: appends_refl)
next
  case (Cons x xs)
  have "appends P st (f x st)" by (rule Cons.prems) simp
  moreover have "appends P (f x st) (fold f xs (f x st))"
    by (rule Cons.IH) (simp add: Cons.prems)
  ultimately show ?case using appends_trans by simp
qed

lemma finditer_from_occurs:
  "m \<in> set (finditer_from r fl len s adv) \<Longrightarrow> \<exists>pre post. s = pre @ m_group0 m @ post"
proof (induction r fl len s adv rule: finditer_from.induct)
  case (1 r fl len s must_advance)
  note mem = "1.prems"
  show ?case
  proof (cases "first_match r fl len s must_advance")
    case None
    show ?thesis
    proof (cases s)
      case Nil
      with None mem show ?thesis
        by (simp add: finditer_from.simps [of r fl len "[]" must_advance])
    next
      case (Cons c cs)
      with None mem have "m \<in> set (finditer_from r fl len cs False)"
        by (simp add: finditer_from.simps [of r fl len "c # cs" must_advance])
      then obtain pre post where "cs = pre @ m_group0 m @ post"
        using "1.IH"(1) [OF None Cons] by blast
      then have "s = (c # pre) @ m_group0 m @ post" using Cons by simp
      then show ?thesis by blast
    qed
  next
    case (Some st')
    from consumesD [OF rmatch_consumes first_match_in [OF Some]]
    obtain w where w: "s = w @ fst st'" by auto
    from Some mem have "m = mk_match len s st' \<or>
        (advances (s, []) st' \<and> m \<in> set (finditer_from r fl len (fst st') False)) \<or>
        (\<not> advances (s, []) st' \<and> m \<in> set (finditer_from r fl len s True))"
      by (auto simp: finditer_from.simps [of r fl len s must_advance] split: if_splits)
    then consider (a) "m = mk_match len s st'"
      | (b) "advances (s, []) st'" "m \<in> set (finditer_from r fl len (fst st') False)"
      | (c) "\<not> advances (s, []) st'" "m \<in> set (finditer_from r fl len s True)"
      by blast
    then show ?thesis
    proof cases
      case a
      with w have "s = [] @ m_group0 m @ fst st'" by (simp add: mk_match_def)
      then show ?thesis by blast
    next
      case b
      then obtain pre post where "fst st' = pre @ m_group0 m @ post"
        using "1.IH"(2) [OF Some] by blast
      with w have "s = (w @ pre) @ m_group0 m @ post" by simp
      then show ?thesis by blast
    next
      case c
      then show ?thesis using "1.IH"(3) [OF Some] by simp
    qed
  qed
qed

lemma finditer_occurs: "m \<in> set (finditer r fl text) \<Longrightarrow> contains text (m_group0 m)"
  unfolding finditer_def contains_iff by (rule finditer_from_occurs)

lemma numerical_branch_appends:
  assumes "contains current_text (m_group0 m)"
  shows "appends (from_scan ctype current_text) st (numerical_branch ctype current_text m st)"
proof -
  let ?ctext = "m_group0 m"
  let ?entry = "\<lambda>num. Numerical ?ctext num ctype (context_window current_text m)"
  let ?step = "\<lambda>num. add_if_new (numerical_key ctype ?ctext num) (?entry num)"
  have step: "appends (from_scan ctype current_text) st' (?step num st')" for num st'
    by (rule add_if_new_appends) (simp add: from_scan_def assms)
  have "appends (from_scan ctype current_text) st (fold ?step nums st)" for nums
    by (rule fold_appends) (rule step)
  then have "appends (from_scan ctype current_text) st (?step num (fold ?step nums st))" for num nums
    using step appends_trans by blast
  then show ?thesis
    by (simp add: numerical_branch_def Let_def appends_refl)
qed

lemma scan_pattern_appends:
  assumes "p \<in> set patterns"
  shows "appends (from_scan ctype current_text) st (scan_pattern current_year ctype current_text p st)"
  unfolding scan_pattern_def
proof (rule fold_appends)
  fix m st'
  assume m: "m \<in> set (finditer (snd p) no_flags current_text)"
  show "appends (from_scan ctype current_text) st'
      (process_match current_year (fst p) ctype current_text m st')"
    by (simp add: process_match_library [OF assms m] numerical_branch_appends finditer_occurs [OF m])
qed

lemma scan_text_appends:
  "appends (from_scan (snd t) (fst t)) st (scan_text current_year t st)"
  unfolding scan_text_def by (rule fold_appends) (rule scan_pattern_appends)

lemma extract_structure:
  assumes "text \<noteq> []"
  shows "\<exists>inl refs. extract_citations current_year text = inl @ refs \<and>
     inl = fst (scan_text current_year (text, ''inline'') ([], {})) \<and>
     list_all (from_scan ''inline'' text) inl \<and>
     list_all (from_scan ''reference'' (references_text text)) refs"
proof -
  let ?st1 = "scan_text current_year (text, ''inline'') ([], {})"
  let ?st2 = "scan_text current_year (references_text text, ''reference'') ?st1"
  have "appends (from_scan ''inline'' text) ([], {}) ?st1"
    using scan_text_appends [of "(text, ''inline'')"] by simp
  then have 1: "list_all (from_scan ''inline'' text) (fst ?st1)" by (simp add: appends_def)
  have "appends (from_scan ''reference'' (references_text text)) ?st1 ?st2"
    using scan_text_appends [of "(references_text text, ''reference'')"] by simp
  then obtain refs where 2: "fst ?st2 = fst ?st1 @ refs"
      "list_all (from_scan ''reference'' (references_text text)) refs"
    by (auto simp: appends_def)
  have "extract_citations current_year text = fst ?st2"
    using assms by (simp add: extract_citations_def texts_to_process_def)
  with 1 2 show ?thesis by auto
qed

lemma scan_pattern_year:
  assumes "p \<in> set patterns"
  shows "scan_pattern cy ctype current_text p = scan_pattern cy' ctype current_text p"
proof
  fix st
  show "scan_pattern cy ctype current_text p st = scan_pattern cy' ctype current_text p st"
    unfolding scan_pattern_def
    by (rule fold_cong) (simp_all add: process_match_library [OF assms] fun_eq_iff)
qed

lemma scan_text_year: "scan_text cy t st = scan_text cy' t st"
  unfolding scan_text_def by (rule fold_cong) (simp_all add: scan_pattern_year)

lemma extract_citations_year: "extract_citations cy text = extract_citations cy' text"
proof -
  have "scan_text cy = scan_text cy'" by (intro ext) (rule scan_text_year)
  then show ?thesis by (simp add: extract_citations_def)
qed

lemma citation_task_nonempty: "citation_task (strip (lower task)) \<Longrightarrow> task \<noteq> []"
  by (auto simp: citation_task_def strip_def lstrip_def rstrip_def lower_def)






lemma extract_not_named: "r \<in> set (extract_citations current_year text) \<Longrightarrow> \<not> is_named r"
proof (cases "text = []")
  case True
  assume "r \<in> set (extract_citations current_year text)"
  with True show ?thesis by (simp add: extract_citations_def)
next
  case False
  assume r: "r \<in> set (extract_citations current_year text)"
  from extract_structure [OF False, of current_year] obtain inl refs where
    "extract_citations current_year text = inl @ refs"
    "list_all (from_scan ''inline'' text) inl"
    "list_all (from_scan ''reference'' (references_text text)) refs"
    by blast
  with r show ?thesis by (auto simp: list_all_iff from_scan_def)
qed





lemma add_if_new_lifted:
  "k \<notin> S0 \<Longrightarrow> lifted pre S0 st st' \<Longrightarrow> lifted pre S0 (add_if_new k c st) (add_if_new k c st')"
  by (auto simp: lifted_def add_if_new_def)

lemma fold_lifted:
  assumes "\<And>x st st'. x \<in> set xs \<Longrightarrow> lifted pre S0 st st' \<Longrightarrow> lifted pre S0 (f x st) (f x st')"
    and "lifted pre S0 st st'"
  shows "lifted pre S0 (fold f xs st) (fold f xs st')"
  using assms
proof (induction xs arbitrary: st st')
  case Nil
  then show ?case by simp
next
  case (Cons x xs)
  have "lifted pre S0 (f x st) (f x st')" by (rule Cons.prems(1)) (simp_all add: Cons.prems(2))
  then have "lifted pre S0 (fold f xs (f x st)) (fold f xs (f x st'))"
    by (rule Cons.IH [rotated]) (simp add: Cons.prems(1))
  then show ?case by simp
qed

lemma numerical_branch_lifted:
  assumes fresh: "\<And>rest. ctype @ ''_'' @ rest \<notin> S0" and l: "lifted pre S0 st st'"
  shows "lifted pre S0 (numerical_branch ctype current_text m st)
     (numerical_branch ctype current_text m st')"
proof -
  let ?ctext = "m_group0 m"
  let ?entry = "\<lambda>num. Numerical ?ctext num ctype (context_window current_text m)"
  let ?step = "\<lambda>num. add_if_new (numerical_key ctype ?ctext num) (?entry num)"
  have key: "numerical_key ctype ?ctext num \<notin> S0" for num
    using fresh [of "?ctext @ ''_'' @ num"] by (simp add: numerical_key_def)
  have step: "lifted pre S0 (?step num a) (?step num b)" if "lifted pre S0 a b" for num a b
    using key that by (rule add_if_new_lifted)
  have "lifted pre S0 (fold ?step nums st) (fold ?step nums st')" for nums
    by (rule fold_lifted [OF _ l]) (rule step)
  then have "lifted pre S0 (?step num (fold ?step nums st)) (?step num (fold ?step nums st'))"
    for num nums
    by (rule step)
  then show ?thesis using l by (simp add: numerical_branch_def Let_def)
qed

lemma two_author_branch_lifted:
  assumes fresh: "\<And>rest. ctype @ ''_'' @ rest \<notin> S0" and l: "lifted pre S0 st st'"
  shows "lifted pre S0 (two_author_branch current_year ctype current_text m st)
     (two_author_branch current_year ctype current_text m st')"
  using l fresh
  by (auto simp: two_author_branch_def Let_def intro!: add_if_new_lifted split: option.splits)

lemma single_author_branch_lifted:
  assumes fresh: "\<And>rest. ctype @ ''_'' @ rest \<notin> S0" and l: "lifted pre S0 st st'"
  shows "lifted pre S0 (single_author_branch current_year ctype current_text m st)
     (single_author_branch current_year ctype current_text m st')"
  using l fresh
  by (auto simp: single_author_branch_def Let_def intro!: add_if_new_lifted split: option.splits)

lemma process_match_lifted:
  assumes "\<And>rest. ctype @ ''_'' @ rest \<notin> S0" and "lifted pre S0 st st'"
  shows "lifted pre S0 (process_match current_year pattern ctype current_text m st)
     (process_match current_year pattern ctype current_text m st')"
  using assms
  by (cases "branch_of pattern m")
    (simp_all add: process_match_def numerical_branch_lifted two_author_branch_lifted
      single_author_branch_lifted)

lemma scan_text_lifted:
  assumes fresh: "\<And>rest. snd t @ ''_'' @ rest \<notin> S0" and l: "lifted pre S0 st st'"
  shows "lifted pre S0 (scan_text current_year t st) (scan_text current_year t st')"
  unfolding scan_text_def
proof (rule fold_lifted [OF _ l])
  fix p a b
  assume ab: "lifted pre S0 a b"
  show "lifted pre S0 (scan_pattern current_year (snd t) (fst t) p a)
      (scan_pattern current_year (snd t) (fst t) p b)"
    unfolding scan_pattern_def
    by (rule fold_lifted [OF _ ab]) (rule process_match_lifted [OF fresh])
qed

lemma inline_keys:
  assumes "keyed st" and "list_all (from_scan ''inline'' text) (fst st)"
  shows "''reference'' @ ''_'' @ rest \<notin> snd st"
proof
  assume "''reference'' @ ''_'' @ rest \<in> snd st"
  with assms(1) obtain r where r: "r \<in> set (fst st)"
    and k: "key_text (dedup_key r) = ''reference'' @ ''_'' @ rest"
    by (auto simp: keyed_def)
  from r assms(2) have "from_scan ''inline'' text r" by (simp add: list_all_iff)
  with k show False by (cases r) (auto simp: from_scan_def numerical_key_def)
qed

lemma extract_two_scans:
  assumes "text \<noteq> []"
  shows "extract_citations current_year text =
     scan_records current_year (text, ''inline'') @
     scan_records current_year (references_text text, ''reference'')"
proof -
  let ?st1 = "scan_text current_year (text, ''inline'') ([], {})"
  let ?t2 = "(references_text text, ''reference'')"
  have k: "keyed ?st1" by (rule scan_text_keyed) (simp add: keyed_def)
  have "appends (from_scan ''inline'' text) ([], {}) ?st1"
    using scan_text_appends [of "(text, ''inline'')"] by simp
  then have a: "list_all (from_scan ''inline'' text) (fst ?st1)" by (simp add: appends_def)
  have "lifted (fst ?st1) (snd ?st1) ([], {}) ?st1" by (simp add: lifted_def)
  then have "lifted (fst ?st1) (snd ?st1) (scan_text current_year ?t2 ([], {}))
      (scan_text current_year ?t2 ?st1)"
    by (rule scan_text_lifted [rotated]) (simp add: inline_keys [OF k a, simplified])
  then have "fst (scan_text current_year ?t2 ?st1) =
      fst ?st1 @ fst (scan_text current_year ?t2 ([], {}))"
    by (simp add: lifted_def)
  with assms show ?thesis
    by (simp add: extract_citations_def texts_to_process_def scan_records_def)
qed

lemma scan_records_from_scan:
  "list_all (from_scan (snd t) (fst t)) (scan_records current_year t)"
  using scan_text_appends [of t "([], {})" current_year]
  by (simp add: appends_def scan_records_def)


section \<open>The scenarios, evaluated\<close>

lemma extract_see:
  "extract_citations current_year ''See [1] and [2,3] for details.'' =
    [Numerical ''[1] and '' ''1'' ''inline'' ''See [1] and [2,3] for details.'',
     Numerical ''[1]'' ''1'' ''inline'' ''See [1] and [2,3] for details.'',
     Numerical ''[2,3]'' ''2'' ''inline'' ''See [1] and [2,3] for details.'',
     Numerical ''[2,3]'' ''3'' ''inline'' ''See [1] and [2,3] for details.'']"
  by code_simp

lemma extract_block7:
  "extract_citations current_year ''References\<newline>see [7] x'' =
    [Numerical ''[7] x'' ''7'' ''inline'' ''References\<newline>see [7] x'',
     Numerical ''[7]'' ''7'' ''inline'' ''References\<newline>see [7] x'',
     Numerical ''[7] x'' ''7'' ''reference'' ''see [7] x'',
     Numerical ''[7]'' ''7'' ''reference'' ''see [7] x'']"
  by code_simp


section \<open>The claims\<close>

text \<open>
  Claim C1. A match goes through the numerical branch exactly when the pattern text
  contains \<open>[\<close>, or contains \<open>(\<close> while the matched text has a digit; so a match with a
  digit of a pattern with \<open>(\<close> is handled by the numerical branch, whatever the pattern.
\<close>

theorem numerical_branch_condition:
  "((branch_of pattern m = Numerical_branch) =
      (CHR ''['' \<in> set pattern \<or>
       (CHR ''('' \<in> set pattern \<and> (\<exists>c\<in>set (m_group0 m). isdigit c)))) \<and>
   (CHR ''('' \<in> set pattern \<and> (\<exists>c\<in>set (m_group0 m). isdigit c) \<longrightarrow>
      process_match current_year pattern ctype current_text m st =
      numerical_branch ctype current_text m st)"
  by (auto simp: branch_of_def is_numerical_def process_match_def list_ex_iff)

theorem numerical_branch_condition_witness:
  "finditer (snd (patterns ! 7)) no_flags ''Smith (2020)'' =
     [\<lparr>m_start = 0, m_end = 12, m_group0 = ''Smith (2020)'',
       m_groups = [(2, 7, ''2020''), (1, 0, ''Smith'')]\<rparr>] \<and>
   CHR ''('' \<in> set (fst (patterns ! 7)) \<and> (\<exists>c\<in>set ''Smith (2020)''. isdigit c) \<and>
   process_match 2026 (fst (patterns ! 7)) ''inline'' ''Smith (2020)''
     \<lparr>m_start = 0, m_end = 12, m_group0 = ''Smith (2020)'',
       m_groups = [(2, 7, ''2020''), (1, 0, ''Smith'')]\<rparr> ([], {}) =
   numerical_branch ''inline'' ''Smith (2020)''
     \<lparr>m_start = 0, m_end = 12, m_group0 = ''Smith (2020)'',
       m_groups = [(2, 7, ''2020''), (1, 0, ''Smith'')]\<rparr> ([], {})"
proof -
  let ?m = "\<lparr>m_start = 0, m_end = 12, m_group0 = ''Smith (2020)'',
       m_groups = [(2, 7, ''2020''), (1, 0, ''Smith'')]\<rparr>"
  have 1: "finditer (snd (patterns ! 7)) no_flags ''Smith (2020)'' = [?m]" by code_simp
  have 2: "CHR ''('' \<in> set (fst (patterns ! 7))" by code_simp
  have 3: "\<exists>c\<in>set (m_group0 ?m). isdigit c" by code_simp
  from numerical_branch_condition [of "fst (patterns ! 7)" ?m 2026 "''inline''" "''Smith (2020)''" "([], {})"] 2 3
  have "process_match 2026 (fst (patterns ! 7)) ''inline'' ''Smith (2020)'' ?m ([], {}) =
      numerical_branch ''inline'' ''Smith (2020)'' ?m ([], {})" by blast
  with 1 2 3 show ?thesis by simp
qed

text \<open>
  Claim C2. For every input text, no two records of the sequence that
  \<open>extract_citations\<close> returns have the same dedup key: (citation type, citation text,
  number) for a numerical record, (citation type, authors, year) for a named one.
\<close>

theorem no_duplicate_keys: "distinct (map dedup_key (extract_citations current_year text))"
proof (cases "text = []")
  case True
  then show ?thesis by (simp add: extract_citations_def)
next
  case False
  let ?st = "fold (scan_text current_year) (texts_to_process text) ([], {})"
  have "distinct (map (\<lambda>r. key_text (dedup_key r)) (fst ?st))"
    using extract_keyed [of current_year "texts_to_process text"] by (simp add: keyed_def)
  then have "distinct (map key_text (map dedup_key (fst ?st)))" by (simp add: comp_def)
  then have "distinct (map dedup_key (fst ?st))"
    using distinct_map [of key_text "map dedup_key (fst ?st)"] by blast
  with False show ?thesis by (simp add: extract_citations_def)
qed

text \<open>
  Claim C3, as it stands, fails: a match that lies strictly inside the references block
  gives a record with the citation type \<open>inline\<close>. In \<open>References\<newline>see [7] x\<close> the block
  is the span from 11 to 20, the second pattern matches \<open>[7]\<close> from 15 to 18 in the scan
  of the whole text, and the record of that match is \<open>inline\<close>.
\<close>

theorem region_tagging_counterexample:
  "references_block ''References\<newline>see [7] x'' = Some (11, 20) \<and>
   finditer (snd (patterns ! 1)) no_flags ''References\<newline>see [7] x'' =
     [\<lparr>m_start = 15, m_end = 18, m_group0 = ''[7]'', m_groups = [(1, 16, ''7'')]\<rparr>] \<and>
   inside_block ''References\<newline>see [7] x''
     \<lparr>m_start = 15, m_end = 18, m_group0 = ''[7]'', m_groups = [(1, 16, ''7'')]\<rparr> \<and>
   fst (process_match 2026 (fst (patterns ! 1)) ''inline'' ''References\<newline>see [7] x''
     \<lparr>m_start = 15, m_end = 18, m_group0 = ''[7]'', m_groups = [(1, 16, ''7'')]\<rparr> ([], {})) =
     [Numerical ''[7]'' ''7'' ''inline'' ''References\<newline>see [7] x''] \<and>
   Numerical ''[7]'' ''7'' ''inline'' ''References\<newline>see [7] x''
     \<in> set (extract_citations 2026 ''References\<newline>see [7] x'') \<and>
   citation_type (Numerical ''[7]'' ''7'' ''inline'' ''References\<newline>see [7] x'') \<noteq> ''reference''"
proof -
  let ?t = "''References\<newline>see [7] x''"
  let ?m = "\<lparr>m_start = 15, m_end = 18, m_group0 = ''[7]'', m_groups = [(1, 16, ''7'')]\<rparr>"
  have 1: "references_block ?t = Some (11, 20)" by code_simp
  have 2: "finditer (snd (patterns ! 1)) no_flags ?t = [?m]" by code_simp
  have 3: "inside_block ?t ?m" by (simp add: inside_block_def 1)
  have 4: "fst (process_match 2026 (fst (patterns ! 1)) ''inline'' ?t ?m ([], {})) =
     [Numerical ''[7]'' ''7'' ''inline'' ?t]" by code_simp
  have 5: "Numerical ''[7]'' ''7'' ''inline'' ?t \<in> set (extract_citations 2026 ?t)"
    by (simp add: extract_block7)
  from 1 2 3 4 5 show ?thesis by simp
qed

text \<open>
  Claim C3, amended. The citation type of a record is the scan that produced it, not
  the place of its match: the output is the records of the scan of the whole text, all
  \<open>inline\<close> (also those whose match lies inside the references block), followed by the
  records of the scan of the references text on its own, all \<open>reference\<close>; the citation
  text of an \<open>inline\<close> record occurs in the text, that of a \<open>reference\<close> record in
  the references text.
\<close>

theorem region_tagging_by_scan:
  assumes "text \<noteq> []"
  shows "extract_citations current_year text =
       scan_records current_year (text, ''inline'') @
       scan_records current_year (references_text text, ''reference'') \<and>
     (\<forall>r\<in>set (scan_records current_year (text, ''inline'')).
        citation_type r = ''inline'' \<and> contains text (citation_text r)) \<and>
     (\<forall>r\<in>set (scan_records current_year (references_text text, ''reference'')).
        citation_type r = ''reference'' \<and> contains (references_text text) (citation_text r))"
  using extract_two_scans [OF assms, of current_year]
    scan_records_from_scan [of "(text, ''inline'')" current_year]
    scan_records_from_scan [of "(references_text text, ''reference'')" current_year]
  by (simp add: list_all_iff from_scan_def)

theorem region_tagging_by_scan_witness:
  "''References\<newline>see [7] x'' \<noteq> [] \<and>
   references_text ''References\<newline>see [7] x'' = ''see [7] x'' \<and>
   scan_records 2026 (''References\<newline>see [7] x'', ''inline'') =
    [Numerical ''[7] x'' ''7'' ''inline'' ''References\<newline>see [7] x'',
     Numerical ''[7]'' ''7'' ''inline'' ''References\<newline>see [7] x''] \<and>
   scan_records 2026 (''see [7] x'', ''reference'') =
    [Numerical ''[7] x'' ''7'' ''reference'' ''see [7] x'',
     Numerical ''[7]'' ''7'' ''reference'' ''see [7] x''] \<and>
   extract_citations 2026 ''References\<newline>see [7] x'' =
    [Numerical ''[7] x'' ''7'' ''inline'' ''References\<newline>see [7] x'',
     Numerical ''[7]'' ''7'' ''inline'' ''References\<newline>see [7] x'',
     Numerical ''[7] x'' ''7'' ''reference'' ''see [7] x'',
     Numerical ''[7]'' ''7'' ''reference'' ''see [7] x'']"
proof -
  let ?t = "''References\<newline>see [7] x''"
  have 1: "?t \<noteq> []" by simp
  have 2: "references_text ?t = ''see [7] x''" by code_simp
  have 3: "scan_records 2026 (?t, ''inline'') =
    [Numerical ''[7] x'' ''7'' ''inline'' ?t, Numerical ''[7]'' ''7'' ''inline'' ?t]"
    by code_simp
  have 4: "scan_records 2026 (''see [7] x'', ''reference'') =
    [Numerical ''[7] x'' ''7'' ''reference'' ''see [7] x'',
     Numerical ''[7]'' ''7'' ''reference'' ''see [7] x'']"
    by code_simp
  from region_tagging_by_scan [OF 1, of 2026] 2 3 4
  have "extract_citations 2026 ?t =
    [Numerical ''[7] x'' ''7'' ''inline'' ?t, Numerical ''[7]'' ''7'' ''inline'' ?t,
     Numerical ''[7] x'' ''7'' ''reference'' ''see [7] x'',
     Numerical ''[7]'' ''7'' ''reference'' ''see [7] x'']"
    by simp
  with 1 2 3 4 show ?thesis by simp
qed

text \<open>
  Claim C4 (the program does not do what the claim says). On the text of the scenario
  the program returns three numerical records and no named record: the match
  \<open>Smith (2020)\<close> of the single-author pattern goes through the numerical branch,
  because the pattern text contains \<open>[\<close> in \<open>[A-Z]\<close>. One record is a \<open>reference\<close>.
\<close>

theorem smith_scenario_records:
  "extract_citations current_year
     ''Smith (2020) showed X. \<newline>\<newline>References\<newline>Smith, J. (2020). Title.'' =
    [Numerical ''(2020)'' ''2020'' ''inline''
       ''Smith (2020) showed X. \<newline>\<newline>References\<newline>Smith, J. (2020). Title.'',
     Numerical ''Smith (2020)'' ''2020'' ''inline''
       ''Smith (2020) showed X. \<newline>\<newline>References\<newline>Smith, J. (2020). Title.'',
     Numerical ''(2020)'' ''2020'' ''reference'' ''Smith, J. (2020). Title.'']"
  by code_simp

text \<open>
  Claim C5, as it stands, fails: the text \<open>See [1] and [2,3] for details.\<close> gives four
  records, not three. The first and the second pattern both match at \<open>[1]\<close>, with the
  matched texts \<open>[1] and \<close> and \<open>[1]\<close>, and the two records have different keys.
\<close>

theorem see_scenario_counterexample:
  "length (extract_citations 2026 ''See [1] and [2,3] for details.'') = 4 \<and>
   length (extract_citations 2026 ''See [1] and [2,3] for details.'') \<noteq> 3 \<and>
   map number (extract_citations 2026 ''See [1] and [2,3] for details.'') =
     [''1'', ''1'', ''2'', ''3'']"
  by (simp add: extract_see)

text \<open>
  Claim C5, amended. \<open>extract_citations\<close> on \<open>See [1] and [2,3] for details.\<close> returns
  exactly four numerical records, with the numbers 1, 1, 2 and 3 and the citation texts
  \<open>[1] and \<close>, \<open>[1]\<close>, \<open>[2,3]\<close> and \<open>[2,3]\<close>, all of them \<open>inline\<close>.
\<close>

theorem see_scenario_records:
  "extract_citations current_year ''See [1] and [2,3] for details.'' =
    [Numerical ''[1] and '' ''1'' ''inline'' ''See [1] and [2,3] for details.'',
     Numerical ''[1]'' ''1'' ''inline'' ''See [1] and [2,3] for details.'',
     Numerical ''[2,3]'' ''2'' ''inline'' ''See [1] and [2,3] for details.'',
     Numerical ''[2,3]'' ''3'' ''inline'' ''See [1] and [2,3] for details.'']"
  by (rule extract_see)

text \<open>
  Claim C6. On the empty text \<open>process_text\<close> returns the failure result with the error
  \<open>Empty text provided\<close>, and \<open>extract_citations\<close> returns the empty sequence.
\<close>

theorem empty_text_fails:
  "process_text current_year [] =
     \<lparr>success = False, citations = [], error = Some ''Empty text provided''\<rparr> \<and>
   extract_citations current_year [] = []"
  by (simp add: process_text_def extract_citations_def)



text \<open>
  Claim C8. \<open>extract_citations\<close> is deterministic: two runs on the same text return the
  same sequence of records, in the same order. The result is a function of the text
  alone; not even the current date enters it.
\<close>

theorem extract_citations_deterministic:
  "extract_citations current_year text = extract_citations current_year' text"
  by (rule extract_citations_year)

text \<open>
  Claim C9. A task that reaches the citation branch (neither a search nor a download
  task, and containing "citation" or "reference"): when it has a colon and the trimmed
  text after the first colon is not empty, \<open>run\<close> hands that text to the citation
  extraction; when it has no colon, or nothing but white space after it, \<open>run\<close> returns
  a failure result with an error message.
\<close>

theorem citation_task_dispatch:
  assumes "\<not> search_task (strip (lower task))"
    and "\<not> download_task (strip (lower task))"
    and "citation_task (strip (lower task))"
  shows "(CHR '':'' \<in> set task \<and> strip (text_after_colon task) \<noteq> [] \<longrightarrow>
           run current_year task max_results =
             Citations \<lparr>success = True,
               citations = extract_citations current_year (strip (text_after_colon task)),
               error = None\<rparr>) \<and>
         (CHR '':'' \<in> set task \<and> strip (text_after_colon task) = [] \<longrightarrow>
           run current_year task max_results = Failure ''Empty text for citation extraction'') \<and>
         (CHR '':'' \<notin> set task \<longrightarrow>
           run current_year task max_results = Failure ''No text provided for citation extraction'')"
  using assms citation_task_nonempty [OF assms(3)]
  by (simp add: run_def Let_def split1_def text_after_colon_def agent_extract_citations_def
      process_text_def)

theorem citation_task_dispatch_witness:
  "\<not> search_task (strip (lower ''extract citations: Smith (2020) argued...'')) \<and>
   \<not> download_task (strip (lower ''extract citations: Smith (2020) argued...'')) \<and>
   citation_task (strip (lower ''extract citations: Smith (2020) argued...'')) \<and>
   CHR '':'' \<in> set ''extract citations: Smith (2020) argued...'' \<and>
   strip (text_after_colon ''extract citations: Smith (2020) argued...'') = ''Smith (2020) argued...'' \<and>
   run 2026 ''extract citations: Smith (2020) argued...'' None =
     Citations \<lparr>success = True,
       citations = extract_citations 2026 ''Smith (2020) argued...'', error = None\<rparr>"
proof -
  let ?task = "''extract citations: Smith (2020) argued...''"
  have 1: "\<not> search_task (strip (lower ?task))" by code_simp
  have 2: "\<not> download_task (strip (lower ?task))" by code_simp
  have 3: "citation_task (strip (lower ?task))" by code_simp
  have 4: "strip (text_after_colon ?task) = ''Smith (2020) argued...''" by code_simp
  have 5: "CHR '':'' \<in> set ?task" by simp
  from citation_task_dispatch [OF 1 2 3, of 2026 None] 4 5
  have "run 2026 ?task None =
     Citations \<lparr>success = True,
       citations = extract_citations 2026 ''Smith (2020) argued...'', error = None\<rparr>"
    by simp
  with 1 2 3 4 5 show ?thesis by simp
qed

text \<open>
  Claim C10. Every record that \<open>extract_citations\<close> returns has the numerical shape;
  no record with an author or authors field is produced, because every match of every
  pattern of the library meets the condition of the numerical branch: the pattern text
  contains \<open>[\<close>, or it contains \<open>(\<close> and the match has a digit.
\<close>

theorem only_numerical_records:
  "(\<forall>r\<in>set (extract_citations current_year text).
      \<exists>ctext num ctype ctx. r = Numerical ctext num ctype ctx) \<and>
   (\<forall>p\<in>set patterns. \<forall>m\<in>set (finditer (snd p) no_flags current_text).
      CHR ''['' \<in> set (fst p) \<or>
      (CHR ''('' \<in> set (fst p) \<and> (\<exists>c\<in>set (m_group0 m). isdigit c)))"
proof (intro conjI ballI)
  fix r
  assume "r \<in> set (extract_citations current_year text)"
  then have "\<not> is_named r" by (rule extract_not_named)
  then show "\<exists>ctext num ctype ctx. r = Numerical ctext num ctype ctx" by (cases r) auto
next
  fix p m
  assume "p \<in> set patterns" and "m \<in> set (finditer (snd p) no_flags current_text)"
  then have "is_numerical (fst p) m" by (rule library_is_numerical)
  then show "CHR ''['' \<in> set (fst p) \<or>
      (CHR ''('' \<in> set (fst p) \<and> (\<exists>c\<in>set (m_group0 m). isdigit c))"
    by (simp add: is_numerical_def list_ex_iff)
qed

theorem only_numerical_records_witness:
  "Numerical ''[1]'' ''1'' ''inline'' ''See [1] and [2,3] for details.''
     \<in> set (extract_citations 2026 ''See [1] and [2,3] for details.'') \<and>
   patterns ! 3 \<in> set patterns \<and>
   finditer (snd (patterns ! 3)) no_flags ''see (7)'' =
     [\<lparr>m_start = 4, m_end = 7, m_group0 = ''(7)'', m_groups = [(1, 5, ''7'')]\<rparr>] \<and>
   CHR ''['' \<notin> set (fst (patterns ! 3)) \<and>
   CHR ''('' \<in> set (fst (patterns ! 3)) \<and>
   (\<exists>c\<in>set ''(7)''. isdigit c)"
proof -
  let ?m = "\<lparr>m_start = 4, m_end = 7, m_group0 = ''(7)'', m_groups = [(1, 5, ''7'')]\<rparr>"
  have 1: "patterns ! 3 \<in> set patterns" by (simp add: patterns_def)
  have 2: "finditer (snd (patterns ! 3)) no_flags ''see (7)'' = [?m]" by code_simp
  have 3: "CHR ''['' \<notin> set (fst (patterns ! 3))" by code_simp
  have 4: "Numerical ''[1]'' ''1'' ''inline'' ''See [1] and [2,3] for details.''
     \<in> set (extract_citations 2026 ''See [1] and [2,3] for details.'')"
    by (simp add: extract_see)
  from only_numerical_records [of 2026 "''See [1] and [2,3] for details.''" "''see (7)''"] 1 2 3
  have "CHR ''('' \<in> set (fst (patterns ! 3)) \<and> (\<exists>c\<in>set (m_group0 ?m). isdigit c)"
    by (metis list.set_intros(1))
  with 1 2 3 4 show ?thesis by simp
qed

end
